theory Spec2Isabelle
  imports Complex_Main "HOL-Library.Word"
begin

unbundle bit_operations_syntax

section \<open>Nova voice-assistant client: the hook \<open>useNova\<close> and \<open>audioUtils\<close>\<close>

text \<open>
  The development embeds the session hook (\<^verbatim>\<open>src/hooks/useNova.ts\<close>) and the audio helpers
  (\<^verbatim>\<open>src/services/audioUtils.ts\<close>). Conventions:
  \<^item> a JavaScript string is a \<open>string\<close> (a list of 8-bit characters): ASCII text, and the
    "binary strings" that \<^verbatim>\<open>btoa\<close>/\<^verbatim>\<open>atob\<close> exchange, fit exactly; text outside ASCII is
    its UTF-8 byte sequence;
  \<^item> a \<^verbatim>\<open>Float32Array\<close> is a \<open>real list\<close>, an \<^verbatim>\<open>Int16Array\<close> a \<open>16 word list\<close>, a
    \<^verbatim>\<open>Uint8Array\<close> an \<open>8 word list\<close>; a JavaScript number is a real, and where the
    rounding of the platform's double arithmetic can decide a result (the resampler), every
    quotient and product goes through the rounding function of the record \<open>js_num\<close>;
  \<^item> every \<^verbatim>\<open>useRef\<close> cell and piece of React state a callback touches is a field of a
    record that the callback takes and returns;
  \<^item> a thrown exception is the left injection of a sum, carrying the exception's message;
  \<^item> what the browser decides (whether \<^verbatim>\<open>window.open\<close> yields a window, how \<^verbatim>\<open>URL\<close>
    parses, how Unicode text is lower-cased and which characters are white space, the clock)
    is a field of the record \<open>env\<close>.
\<close>

subsection \<open>Strings\<close>

fun startsWith :: "string \<Rightarrow> string \<Rightarrow> bool" where
  "startsWith s [] = True"
| "startsWith [] (p # ps) = False"
| "startsWith (c # cs) (p # ps) = (c = p \<and> startsWith cs ps)"

fun js_includes :: "string \<Rightarrow> string \<Rightarrow> bool" where
  "js_includes [] sub = (sub = [])"
| "js_includes (c # cs) sub = (startsWith (c # cs) sub \<or> js_includes cs sub)"

definition hex_digit :: "nat \<Rightarrow> char" where
  "hex_digit n = ''0123456789ABCDEF'' ! (n mod 16)"

definition uri_unreserved :: string where
  "uri_unreserved =
     ''ABCDEFGHIJKLMNOPQRSTUVWXYZabcdefghijklmnopqrstuvwxyz0123456789-_.!~*()'' @ [CHR 0x27]"

text \<open>\<^verbatim>\<open>encodeURIComponent\<close>: every byte outside the unreserved set becomes \<^verbatim>\<open>%XX\<close>.\<close>

definition encodeURIComponent :: "string \<Rightarrow> string" where
  "encodeURIComponent s =
     concat (map (\<lambda>c. if c \<in> set uri_unreserved then [c]
                       else [CHR ''%'', hex_digit (of_char c div 16), hex_digit (of_char c)]) s)"

subsection \<open>JavaScript values, tool calls and the browser\<close>

datatype jsval = JBool bool | JStr string | JUndef

type_synonym jsobj = "(string \<times> jsval) list"

text \<open>\<^verbatim>\<open>`${v}`\<close>\<close>

fun js_toString :: "jsval \<Rightarrow> string" where
  "js_toString (JStr s) = s"
| "js_toString (JBool True) = ''true''"
| "js_toString (JBool False) = ''false''"
| "js_toString JUndef = ''undefined''"

record FunctionCall =
  fc_id :: string
  fc_name :: string
  fc_args :: "jsobj option"

text \<open>One element of \<^verbatim>\<open>functionResponses\<close>: \<^verbatim>\<open>{ id, name, response: { result } }\<close>.\<close>

record FunctionResponse =
  fr_id :: string
  fr_name :: string
  fr_result :: jsobj

datatype log_type = LText | LTool | LError | LInfo

datatype log_source = User | Nova | System

text \<open>\<^verbatim>\<open>LogEntry\<close> of \<^verbatim>\<open>types.ts\<close>, without the random id and the wall-clock timestamp.\<close>

record LogEntry =
  le_message :: string
  le_type :: log_type
  le_source :: log_source
  le_link :: "string option"

datatype open_outcome = Window | NoWindow | OpenThrows string

text \<open>
  The browser. \<open>window_open\<close> answers a call of \<^verbatim>\<open>window.open(url, '_blank')\<close>, given the
  URLs opened before: a window, \<^verbatim>\<open>null\<close> (popup blocked) or an exception. \<open>url_new\<close> is
  \<^verbatim>\<open>new URL(s)\<close> (\<open>None\<close>: it throws), \<open>url_hostname\<close> the getter of \<^verbatim>\<open>hostname\<close>,
  \<open>url_set_hostname\<close> its setter and \<open>url_toString\<close> the serializer. \<open>toLowerCase\<close> is
  \<^verbatim>\<open>String.prototype.toLowerCase\<close> and \<open>stripSpaces\<close> is \<^verbatim>\<open>s.replace(/\s+/g, '')\<close>, both
  over all of Unicode. \<open>typeErrorMessage\<close> is the message of the \<^verbatim>\<open>TypeError\<close> that
  reading a property of \<^verbatim>\<open>undefined\<close> raises.
\<close>

record 'u env =
  window_open :: "string list \<Rightarrow> string \<Rightarrow> open_outcome"
  url_new :: "string \<Rightarrow> 'u option"
  url_hostname :: "'u \<Rightarrow> string"
  url_set_hostname :: "'u \<Rightarrow> string \<Rightarrow> 'u"
  url_toString :: "'u \<Rightarrow> string"
  toLowerCase :: "string \<Rightarrow> string"
  stripSpaces :: "string \<Rightarrow> string"
  typeErrorMessage :: string
  now_iso :: string
  userAgent :: string
  onLine :: bool

text \<open>What every callback of the hook sees: the React state \<^verbatim>\<open>logs\<close>, and the flag
  \<^verbatim>\<open>stopRef\<close> that \<^verbatim>\<open>disconnect\<close> and \<^verbatim>\<open>onclose\<close> set and \<^verbatim>\<open>connect\<close> clears.\<close>

record shared =
  logs :: "LogEntry list"
  stopRef :: bool

text \<open>What the tool dispatcher reads and writes: the log, the theme, and the trace of the
  URLs passed to \<^verbatim>\<open>window.open\<close>.\<close>

record ui = shared +
  currentTheme :: jsval
  windowOpens :: "string list"

definition addLog ::
  "string \<Rightarrow> log_type \<Rightarrow> log_source \<Rightarrow> string option \<Rightarrow> 'a shared_scheme \<Rightarrow> 'a shared_scheme"
where
  "addLog m t src l u =
     u\<lparr>logs := logs u @ [\<lparr>le_message = m, le_type = t, le_source = src, le_link = l\<rparr>]\<rparr>"

text \<open>\<^verbatim>\<open>(args as any).k\<close>: a \<^verbatim>\<open>TypeError\<close> when \<^verbatim>\<open>args\<close> is undefined, \<^verbatim>\<open>undefined\<close> when the
  property is missing.\<close>

definition args_prop :: "'u env \<Rightarrow> jsobj option \<Rightarrow> string \<Rightarrow> string + jsval" where
  "args_prop env args k =
     (case args of
        None \<Rightarrow> Inl (typeErrorMessage env)
      | Some obj \<Rightarrow> Inr (case map_of obj k of None \<Rightarrow> JUndef | Some v \<Rightarrow> v))"

definition call_window_open :: "'u env \<Rightarrow> string \<Rightarrow> ui \<Rightarrow> open_outcome \<times> ui" where
  "call_window_open env url u =
     (window_open env (windowOpens u) url, u\<lparr>windowOpens := windowOpens u @ [url]\<rparr>)"

subsection \<open>The tools (\<^verbatim>\<open>onmessage\<close>, lines 482 to 542)\<close>

text \<open>The "robust URL cleaning" of \<^verbatim>\<open>openUrl\<close>. Steps 1 to 3: lower case, no spaces, and
  the prefix \<^verbatim>\<open>https://\<close> unless the string starts with \<^verbatim>\<open>http://\<close> or \<^verbatim>\<open>https://\<close>.\<close>

definition schemedUrl :: "'u env \<Rightarrow> string \<Rightarrow> string" where
  "schemedUrl env url0 =
     (let url1 = toLowerCase env url0;
          url2 = stripSpaces env url1
      in if \<not> startsWith url2 ''http://'' \<and> \<not> startsWith url2 ''https://''
         then ''https://'' @ url2 else url2)"

text \<open>Step 4, and with it the string handed to \<^verbatim>\<open>window.open\<close>: when the string parses
  as a URL whose host name has no dot, \<^verbatim>\<open>.com\<close> is appended to the host name and the URL
  object is serialized; when it does not parse and has no dot, \<^verbatim>\<open>.com\<close> is appended to
  the string.\<close>

definition cleanUrl :: "'u env \<Rightarrow> string \<Rightarrow> string" where
  "cleanUrl env url0 =
     (let url3 = schemedUrl env url0
      in case url_new env url3 of
           Some urlObj \<Rightarrow>
             if \<not> js_includes (url_hostname env urlObj) ''.''
             then url_toString env
                    (url_set_hostname env urlObj (url_hostname env urlObj @ ''.com''))
             else url3
         | None \<Rightarrow> if \<not> js_includes url3 ''.'' then url3 @ ''.com'' else url3)"

definition tool_openUrl :: "'u env \<Rightarrow> jsobj option \<Rightarrow> ui \<Rightarrow> (string + jsobj) \<times> ui" where
  "tool_openUrl env args u =
     (case args_prop env args ''url'' of
        Inl e \<Rightarrow> (Inl e, u)
      | Inr (JStr url0) \<Rightarrow>
          (let url = cleanUrl env url0;
               (win, u1) = call_window_open env url u
           in case win of
                Window \<Rightarrow>
                  (Inr [(''opened'', JBool True), (''url'', JStr url)],
                   addLog (''Opened URL: '' @ url) LTool System (Some url) u1)
              | NoWindow \<Rightarrow>
                  (Inr [(''opened'', JBool False), (''error'', JStr ''Popup blocked'')],
                   addLog (''Popup blocked. Click here to open: '' @ url) LError System (Some url) u1)
              | OpenThrows m \<Rightarrow> (Inl m, u1))
      | Inr _ \<Rightarrow> (Inl (typeErrorMessage env), u))"

definition tool_googleSearch :: "'u env \<Rightarrow> jsobj option \<Rightarrow> ui \<Rightarrow> (string + jsobj) \<times> ui" where
  "tool_googleSearch env args u =
     (case args_prop env args ''query'' of
        Inl e \<Rightarrow> (Inl e, u)
      | Inr query \<Rightarrow>
          (let url = ''https://www.google.com/search?q='' @ encodeURIComponent (js_toString query);
               (win, u1) = call_window_open env url u
           in case win of
                Window \<Rightarrow>
                  (Inr [(''searched'', JBool True), (''query'', query)],
                   addLog (''Searching Google: '' @ js_toString query) LTool System (Some url) u1)
              | NoWindow \<Rightarrow>
                  (Inr [(''error'', JStr ''Popup blocked'')],
                   addLog (''Popup blocked. Search link: '' @ js_toString query) LError System (Some url) u1)
              | OpenThrows m \<Rightarrow> (Inl m, u1)))"

definition tool_changeTheme :: "'u env \<Rightarrow> jsobj option \<Rightarrow> ui \<Rightarrow> (string + jsobj) \<times> ui" where
  "tool_changeTheme env args u =
     (case args_prop env args ''mode'' of
        Inl e \<Rightarrow> (Inl e, u)
      | Inr mode \<Rightarrow>
          (Inr [(''themeChangedTo'', mode)],
           addLog (''Theme changed to '' @ js_toString mode) LTool System None
             (u\<lparr>currentTheme := mode\<rparr>)))"

definition tool_getSystemStatus :: "'u env \<Rightarrow> ui \<Rightarrow> (string + jsobj) \<times> ui" where
  "tool_getSystemStatus env u =
     (Inr [(''time'', JStr (now_iso env)), (''userAgent'', JStr (userAgent env)),
           (''onLine'', JBool (onLine env))],
      addLog ''System diagnostics run'' LTool System None u)"

text \<open>The body of the \<^verbatim>\<open>try\<close> block: the chain of comparisons on \<^verbatim>\<open>name\<close>. \<open>result\<close> is
  the value of the variable of that name when the block is entered.\<close>

definition run_tool :: "'u env \<Rightarrow> FunctionCall \<Rightarrow> jsobj \<Rightarrow> ui \<Rightarrow> (string + jsobj) \<times> ui" where
  "run_tool env fc result u =
     (if fc_name fc = ''openUrl'' then tool_openUrl env (fc_args fc) u
      else if fc_name fc = ''googleSearch'' then tool_googleSearch env (fc_args fc) u
      else if fc_name fc = ''changeTheme'' then tool_changeTheme env (fc_args fc) u
      else if fc_name fc = ''getSystemStatus'' then tool_getSystemStatus env u
      else (Inr result, u))"

text \<open>One iteration of the loop over \<^verbatim>\<open>message.toolCall.functionCalls\<close>: the default
  result, the log line, the \<^verbatim>\<open>try\<close>/\<^verbatim>\<open>catch\<close>, and the response that is pushed.\<close>

definition handle_call :: "'u env \<Rightarrow> FunctionCall \<Rightarrow> ui \<Rightarrow> FunctionResponse \<times> ui" where
  "handle_call env fc u =
     (let result0 = [(''success'', JBool True)];
          u1 = addLog (''Executing tool: '' @ fc_name fc) LTool System None u;
          (r, u2) = run_tool env fc result0 u1;
          (result, u3) =
            (case r of
               Inl m \<Rightarrow> ([(''error'', JStr m)],
                         addLog (''Tool error: '' @ m) LError System None u2)
             | Inr res \<Rightarrow> (res, u2))
      in (\<lparr>fr_id = fc_id fc, fr_name = fc_name fc, fr_result = result\<rparr>, u3))"

fun dispatch_loop ::
  "'u env \<Rightarrow> FunctionCall list \<Rightarrow> FunctionResponse list \<Rightarrow> ui \<Rightarrow> FunctionResponse list \<times> ui"
where
  "dispatch_loop env [] functionResponses u = (functionResponses, u)"
| "dispatch_loop env (fc # fcs) functionResponses u =
     (let (r, u') = handle_call env fc u
      in dispatch_loop env fcs (functionResponses @ [r]) u')"

text \<open>\<^verbatim>\<open>onmessage\<close> for a message that carries a tool call: the handler returns at once when
  \<^verbatim>\<open>stopRef.current\<close> is set (line 428); otherwise the responses are collected and handed to
  \<^verbatim>\<open>session.sendToolResponse\<close> once. The first component is the list of the arguments of
  the calls of \<^verbatim>\<open>sendToolResponse\<close>.\<close>

definition onmessage_toolCall ::
  "'u env \<Rightarrow> FunctionCall list \<Rightarrow> ui \<Rightarrow> FunctionResponse list list \<times> ui"
where
  "onmessage_toolCall env functionCalls u =
     (if stopRef u then ([], u)
      else
        (let (functionResponses, u') = dispatch_loop env functionCalls [] u
         in ([functionResponses], u')))"

text \<open>The state in which the \<open>i\<close>-th call of a batch is handled.\<close>

definition state_before :: "'u env \<Rightarrow> FunctionCall list \<Rightarrow> ui \<Rightarrow> nat \<Rightarrow> ui" where
  "state_before env functionCalls u i = snd (dispatch_loop env (take i functionCalls) [] u)"

subsection \<open>A reference browser for the examples\<close>

text \<open>
  The browser's answers on the fragment that the examples need, and nothing else: outside
  the fragment the reference browser is left unspecified, so that no statement can be
  derived from it there.
  \<^item> \<^verbatim>\<open>toLowerCase\<close> and the removal of \<^verbatim>\<open>\s\<close> on ASCII strings: the letters A to Z are
    mapped to a to z; tab, line feed, vertical tab, form feed, carriage return and space
    are the ASCII characters in the class \<^verbatim>\<open>\s\<close>.
  \<^item> \<^verbatim>\<open>URL\<close> on the strings \<^verbatim>\<open>http://host\<close> and \<^verbatim>\<open>https://host\<close> whose host is a sequence of
    non-empty labels of lower-case letters separated by single dots. Such a host is kept as
    it is, the path is empty, and the serializer writes an empty path as \<^verbatim>\<open>/\<close>.
\<close>

definition upper_letters :: string where
  "upper_letters = ''ABCDEFGHIJKLMNOPQRSTUVWXYZ''"

definition lower_letters :: string where
  "lower_letters = ''abcdefghijklmnopqrstuvwxyz''"

definition lower_char :: "char \<Rightarrow> char" where
  "lower_char c = (case map_of (zip upper_letters lower_letters) c of Some l \<Rightarrow> l | None \<Rightarrow> c)"

definition is_ascii :: "string \<Rightarrow> bool" where
  "is_ascii s = list_all (\<lambda>c. (of_char c :: nat) < 128) s"

definition is_space :: "char \<Rightarrow> bool" where
  "is_space c = (c \<in> set [CHR 0x09, CHR 0x0A, CHR 0x0B, CHR 0x0C, CHR 0x0D, CHR '' ''])"

definition ref_toLowerCase :: "string \<Rightarrow> string" where
  "ref_toLowerCase s = (if is_ascii s then map lower_char s else undefined)"

definition ref_stripSpaces :: "string \<Rightarrow> string" where
  "ref_stripSpaces s = (if is_ascii s then filter (\<lambda>c. \<not> is_space c) s else undefined)"

record url_rec =
  u_scheme :: string
  u_host :: string

definition valid_host :: "string \<Rightarrow> bool" where
  "valid_host h =
     (h \<noteq> [] \<and> list_all (\<lambda>c. c \<in> set lower_letters \<or> c = CHR ''.'') h
      \<and> \<not> startsWith h ''.'' \<and> \<not> startsWith (rev h) ''.'' \<and> \<not> js_includes h ''..'')"

definition ref_url_new :: "string \<Rightarrow> url_rec option" where
  "ref_url_new s =
     (if startsWith s ''https://'' \<and> valid_host (drop 8 s)
      then Some \<lparr>u_scheme = ''https'', u_host = drop 8 s\<rparr>
      else if startsWith s ''http://'' \<and> valid_host (drop 7 s)
      then Some \<lparr>u_scheme = ''http'', u_host = drop 7 s\<rparr>
      else undefined)"

definition ref_url_set_hostname :: "url_rec \<Rightarrow> string \<Rightarrow> url_rec" where
  "ref_url_set_hostname url h = (if valid_host h then url\<lparr>u_host := h\<rparr> else undefined)"

definition ref_url_toString :: "url_rec \<Rightarrow> string" where
  "ref_url_toString url = u_scheme url @ ''://'' @ u_host url @ ''/''"

definition ref_env :: "(string list \<Rightarrow> string \<Rightarrow> open_outcome) \<Rightarrow> url_rec env" where
  "ref_env wopen =
     \<lparr>window_open = wopen, url_new = ref_url_new, url_hostname = u_host,
      url_set_hostname = ref_url_set_hostname, url_toString = ref_url_toString,
      toLowerCase = ref_toLowerCase, stripSpaces = ref_stripSpaces,
      typeErrorMessage = ''TypeError'', now_iso = ''1970-01-01T00:00:00.000Z'',
      userAgent = ''reference'', onLine = True\<rparr>"

text \<open>A reference browser that opens every window, and the dispatcher's initial state
  (\<^verbatim>\<open>useState('dark')\<close>, no log entry, the stop flag clear, nothing opened).\<close>

definition always_window :: "string list \<Rightarrow> string \<Rightarrow> open_outcome" where
  "always_window opened url = Window"

definition reference_browser :: "url_rec env" where
  "reference_browser = ref_env always_window"

definition initial_ui :: ui where
  "initial_ui = \<lparr>logs = [], stopRef = False, currentTheme = JStr ''dark'', windowOpens = []\<rparr>"

subsection \<open>Base64 (\<^verbatim>\<open>btoa\<close>, \<^verbatim>\<open>atob\<close>) and \<^verbatim>\<open>encode\<close>, \<^verbatim>\<open>decode\<close>\<close>

definition b64_alphabet :: string where
  "b64_alphabet = ''ABCDEFGHIJKLMNOPQRSTUVWXYZabcdefghijklmnopqrstuvwxyz0123456789+/''"

definition b64_char :: "nat \<Rightarrow> char" where
  "b64_char i = b64_alphabet ! i"

fun find_index_from :: "nat \<Rightarrow> char \<Rightarrow> string \<Rightarrow> nat option" where
  "find_index_from n c [] = None"
| "find_index_from n c (x # xs) = (if x = c then Some n else find_index_from (Suc n) c xs)"

definition b64_index :: "char \<Rightarrow> nat option" where
  "b64_index c = find_index_from 0 c b64_alphabet"

text \<open>\<^verbatim>\<open>btoa\<close> on the character codes: three bytes become four characters; a last group of
  one or two bytes is padded with \<^verbatim>\<open>=\<close>. Every character of a \<open>string\<close> has a code below
  256, so the \<^verbatim>\<open>InvalidCharacterError\<close> of \<^verbatim>\<open>btoa\<close> cannot arise.\<close>

fun btoa_groups :: "nat list \<Rightarrow> string" where
  "btoa_groups (a # b # c # rest) =
     [b64_char (a div 4), b64_char ((a mod 4) * 16 + b div 16),
      b64_char ((b mod 16) * 4 + c div 64), b64_char (c mod 64)] @ btoa_groups rest"
| "btoa_groups [a, b] =
     [b64_char (a div 4), b64_char ((a mod 4) * 16 + b div 16),
      b64_char ((b mod 16) * 4), CHR ''='']"
| "btoa_groups [a] =
     [b64_char (a div 4), b64_char ((a mod 4) * 16), CHR ''='', CHR ''='']"
| "btoa_groups [] = []"

definition btoa :: "string \<Rightarrow> string" where
  "btoa s = btoa_groups (map of_char s)"

text \<open>\<^verbatim>\<open>atob\<close> is the "forgiving base64 decode" of the HTML standard: ASCII whitespace is
  removed; when the length is a multiple of four, one or two trailing \<^verbatim>\<open>=\<close> are removed;
  a length that leaves remainder one, or a character outside the alphabet, is an
  \<^verbatim>\<open>InvalidCharacterError\<close> (\<open>None\<close>); the sextets are then joined, and the bits left over
  after the last whole byte are dropped.\<close>

definition is_ascii_whitespace :: "char \<Rightarrow> bool" where
  "is_ascii_whitespace c = (c \<in> set [CHR 0x09, CHR 0x0A, CHR 0x0C, CHR 0x0D, CHR '' ''])"

definition strip_padding :: "string \<Rightarrow> string" where
  "strip_padding d =
     (if d \<noteq> [] \<and> last d = CHR ''='' then
        (let d1 = butlast d in if d1 \<noteq> [] \<and> last d1 = CHR ''='' then butlast d1 else d1)
      else d)"

fun atob_groups :: "nat list \<Rightarrow> nat list" where
  "atob_groups (p # q # r # s # rest) =
     [p * 4 + q div 16, (q mod 16) * 16 + r div 4, (r mod 4) * 64 + s] @ atob_groups rest"
| "atob_groups [p, q, r] = [p * 4 + q div 16, (q mod 16) * 16 + r div 4]"
| "atob_groups [p, q] = [p * 4 + q div 16]"
| "atob_groups [p] = []"
| "atob_groups [] = []"

definition atob :: "string \<Rightarrow> string option" where
  "atob s =
     (let d0 = filter (\<lambda>c. \<not> is_ascii_whitespace c) s;
          d = (if length d0 mod 4 = 0 then strip_padding d0 else d0)
      in if length d mod 4 = 1 then None
         else if list_ex (\<lambda>c. b64_index c = None) d then None
         else Some (map char_of (atob_groups (map (\<lambda>c. the (b64_index c)) d))))"

text \<open>\<^verbatim>\<open>encode(bytes)\<close>: the bytes become the characters of a binary string, then \<^verbatim>\<open>btoa\<close>.\<close>

definition encode :: "8 word list \<Rightarrow> string" where
  "encode bytes = btoa (map (\<lambda>b. char_of (unat b)) bytes)"

text \<open>\<^verbatim>\<open>decode(base64)\<close>: \<^verbatim>\<open>atob\<close>, then the character codes are stored in a
  \<^verbatim>\<open>Uint8Array\<close>. \<open>None\<close>: \<^verbatim>\<open>atob\<close> threw.\<close>

definition decode :: "string \<Rightarrow> 8 word list option" where
  "decode base64 =
     (case atob base64 of
        None \<Rightarrow> None
      | Some binaryString \<Rightarrow> Some (map (\<lambda>c. word_of_nat (of_char c)) binaryString))"

subsection \<open>PCM conversion (\<^verbatim>\<open>createBlob\<close>, \<^verbatim>\<open>decodeAudioData\<close>)\<close>

definition PCM_SAMPLE_RATE_INPUT :: real where
  "PCM_SAMPLE_RATE_INPUT = 16000"

definition PCM_SAMPLE_RATE_OUTPUT :: real where
  "PCM_SAMPLE_RATE_OUTPUT = 24000"

text \<open>Storing a number in an \<^verbatim>\<open>Int16Array\<close>: the fraction is cut off (towards zero) and the
  integer is taken modulo \<open>2 ^ 16\<close>.\<close>

definition js_trunc :: "real \<Rightarrow> int" where
  "js_trunc x = (if x < 0 then \<lceil>x\<rceil> else \<lfloor>x\<rfloor>)"

definition toInt16 :: "real \<Rightarrow> 16 word" where
  "toInt16 x = word_of_int (js_trunc x)"

text \<open>The body of the loop of \<^verbatim>\<open>createBlob\<close>: clamp, scale, store.\<close>

definition createBlob_sample :: "real \<Rightarrow> 16 word" where
  "createBlob_sample x =
     (let s = max (- 1) (min 1 x)
      in toInt16 (if s < 0 then s * 0x8000 else s * 0x7FFF))"

text \<open>\<^verbatim>\<open>new Uint8Array(int16.buffer)\<close>: each 16-bit element is two bytes, low byte first.\<close>

definition int16_bytes :: "16 word \<Rightarrow> 8 word list" where
  "int16_bytes w = [ucast w, ucast (drop_bit 8 w)]"

definition buffer_bytes :: "16 word list \<Rightarrow> 8 word list" where
  "buffer_bytes int16 = concat (map int16_bytes int16)"

text \<open>The PCM bytes that \<^verbatim>\<open>createBlob\<close> hands to \<^verbatim>\<open>encode\<close> (the specification's
  \<^verbatim>\<open>floatToPCM16\<close>).\<close>

definition floatToPCM16 :: "real list \<Rightarrow> 8 word list" where
  "floatToPCM16 data = buffer_bytes (map createBlob_sample data)"

record blob =
  blob_data :: string
  blob_mimeType :: string

definition createBlob :: "real list \<Rightarrow> blob" where
  "createBlob data =
     \<lparr>blob_data = encode (floatToPCM16 data), blob_mimeType = ''audio/pcm;rate=16000''\<rparr>"

text \<open>\<^verbatim>\<open>new Int16Array(buffer)\<close> over an even number of bytes.\<close>

fun int16_of_bytes :: "8 word list \<Rightarrow> 16 word list" where
  "int16_of_bytes (lo # hi # rest) = (ucast lo OR push_bit 8 (ucast hi)) # int16_of_bytes rest"
| "int16_of_bytes [b] = []"
| "int16_of_bytes [] = []"

record AudioBuffer =
  ab_sampleRate :: real
  ab_channels :: "real list list"

definition ab_length :: "AudioBuffer \<Rightarrow> nat" where
  "ab_length b = (case ab_channels b of [] \<Rightarrow> 0 | c # cs \<Rightarrow> length c)"

text \<open>\<^verbatim>\<open>AudioBuffer.duration\<close>: the number of frames over the sample rate.\<close>

definition duration :: "AudioBuffer \<Rightarrow> real" where
  "duration b = real (ab_length b) / ab_sampleRate b"

text \<open>\<^verbatim>\<open>decodeAudioData\<close> (the specification's \<^verbatim>\<open>pcm16ToFloat\<close>). \<^verbatim>\<open>createBuffer\<close> takes the
  whole part of \<^verbatim>\<open>frameCount\<close> and throws when there is no channel or no frame, which
  rejects the promise (\<open>None\<close>).\<close>

definition decodeAudioData :: "8 word list \<Rightarrow> real \<Rightarrow> nat \<Rightarrow> AudioBuffer option" where
  "decodeAudioData data sampleRate numChannels =
     (let pcmData = int16_of_bytes (if length data mod 2 \<noteq> 0 then data @ [0] else data);
          frameCount = length pcmData div numChannels
      in if numChannels = 0 \<or> frameCount = 0 then None
         else Some \<lparr>ab_sampleRate = sampleRate,
                    ab_channels =
                      map (\<lambda>channel.
                             map (\<lambda>i. real_of_int (sint (pcmData ! (i * numChannels + channel))) / 32768.0)
                               [0..<frameCount])
                        [0..<numChannels]\<rparr>)"

subsection \<open>Resampling (\<^verbatim>\<open>downsampleTo16k\<close>)\<close>

text \<open>
  The platform's number arithmetic. A JavaScript number is a double: the quotient or product
  of two numbers is the exact result, rounded. \<open>fl\<close> is that rounding; a result beyond the
  largest double, where the platform yields \<^verbatim>\<open>Infinity\<close>, is some value at least as large,
  and so above every array length. \<open>maxArrayLength\<close> is the longest \<^verbatim>\<open>Float32Array\<close> the
  engine allocates (below \<open>2 ^ 53\<close>). The general statements hold for every rounding with
  the properties \<open>rounding\<close>; \<open>ieee_double\<close> below is the platform's.
\<close>

record js_num =
  fl :: "real \<Rightarrow> real"
  maxArrayLength :: nat

text \<open>What the statements below use of the rounding: it is monotone, and it leaves the
  integers up to \<open>2 ^ 53\<close> and the number \<open>1 / 2\<close> as they are.\<close>

definition rounding :: "(real \<Rightarrow> real) \<Rightarrow> bool" where
  "rounding r \<longleftrightarrow>
     (\<forall>x y. x \<le> y \<longrightarrow> r x \<le> r y) \<and> (\<forall>n::nat. n \<le> 2 ^ 53 \<longrightarrow> r (real n) = real n)
     \<and> r (1 / 2) = 1 / 2"

text \<open>
  The platform's rounding: IEEE 754 binary64, to the nearest double, ties to even. \<open>rne\<close>
  rounds to the nearest integer, ties to even. \<open>binade x\<close> is, for a positive \<open>x\<close>, the
  exponent \<open>e\<close> with \<open>2 ^ e \<le> x < 2 ^ (e + 1)\<close>. The doubles of that size are the multiples
  of \<open>2 ^ (e - 52)\<close>, and below \<open>2 ^ (- 1022)\<close> (the subnormal numbers) the multiples of
  \<open>2 ^ (- 1074)\<close>. A result that rounds to \<open>2 ^ 1024\<close> or more is \<^verbatim>\<open>Infinity\<close> on the
  platform, and \<open>2 ^ 1024\<close> here.
\<close>

definition rne :: "real \<Rightarrow> int" where
  "rne x =
     (let f = \<lfloor>x\<rfloor>; d = x - real_of_int f
      in if d < 1 / 2 then f else if 1 / 2 < d then f + 1 else if even f then f else f + 1)"

function binade :: "real \<Rightarrow> int" where
  "binade x =
     (if 2 \<le> x then binade (x / 2) + 1
      else if 0 < x \<and> x < 1 then binade (2 * x) - 1
      else 0)"
  by pat_completeness auto
termination
proof (relation "measure (\<lambda>x. if 1 \<le> x then nat \<lceil>x\<rceil> else nat \<lceil>1 / x\<rceil> + 2)")
  show "wf (measure (\<lambda>x::real. if 1 \<le> x then nat \<lceil>x\<rceil> else nat \<lceil>1 / x\<rceil> + 2))" by simp
next
  fix x :: real
  assume x: "2 \<le> x"
  have "\<lceil>x / 2\<rceil> \<le> \<lceil>x - 1\<rceil>" using x by (intro ceiling_mono) simp
  then have "\<lceil>x / 2\<rceil> < \<lceil>x\<rceil>" by simp
  moreover have "0 < \<lceil>x\<rceil>" using x by simp
  ultimately have "nat \<lceil>x / 2\<rceil> < nat \<lceil>x\<rceil>" by linarith
  then show "(x / 2, x) \<in> measure (\<lambda>x. if 1 \<le> x then nat \<lceil>x\<rceil> else nat \<lceil>1 / x\<rceil> + 2)"
    using x by simp
next
  fix x :: real
  assume "\<not> 2 \<le> x" and x: "0 < x \<and> x < 1"
  define y where "y = 1 / x"
  have y1: "1 < y" using x by (simp add: y_def)
  have xy: "1 / (2 * x) = y / 2" using x by (simp add: y_def)
  show "(2 * x, x) \<in> measure (\<lambda>x. if 1 \<le> x then nat \<lceil>x\<rceil> else nat \<lceil>1 / x\<rceil> + 2)"
  proof (cases "1 \<le> 2 * x")
    case True
    have "2 * x \<le> 2" using x by simp
    then have "\<lceil>2 * x\<rceil> \<le> 2" by (simp add: ceiling_le_iff)
    moreover have "2 \<le> \<lceil>y\<rceil>" using y1 by (simp add: le_ceiling_iff)
    ultimately have "nat \<lceil>2 * x\<rceil> < nat \<lceil>y\<rceil> + 2" by linarith
    then show ?thesis using True x by (simp add: y_def)
  next
    case False
    then have y2: "2 < y" using x by (simp add: y_def field_simps)
    have "\<lceil>y / 2\<rceil> \<le> \<lceil>y - 1\<rceil>" using y2 by (intro ceiling_mono) simp
    then have "\<lceil>y / 2\<rceil> < \<lceil>y\<rceil>" by simp
    moreover have "0 < \<lceil>y\<rceil>" using y2 by simp
    ultimately have "nat \<lceil>y / 2\<rceil> + 2 < nat \<lceil>y\<rceil> + 2" by linarith
    then have "nat \<lceil>1 / (2 * x)\<rceil> + 2 < nat \<lceil>1 / x\<rceil> + 2"
      unfolding xy by (simp only: y_def)
    then show ?thesis using False x by simp
  qed
qed

declare binade.simps [simp del]

text \<open>The exponent of the doubles around a positive \<open>x\<close>, and the nearest multiple of
  their spacing.\<close>

definition expo :: "real \<Rightarrow> int" where
  "expo x = max (binade x) (- 1022)"

definition nearest :: "real \<Rightarrow> real" where
  "nearest x = real_of_int (rne (x / 2 powi (expo x - 52))) * 2 powi (expo x - 52)"

definition round_pos :: "real \<Rightarrow> real" where
  "round_pos x = (if 2 ^ 1024 \<le> nearest x then 2 ^ 1024 else nearest x)"

definition ieee_double :: "real \<Rightarrow> real" where
  "ieee_double x = (if x < 0 then - round_pos (- x) else round_pos x)"

text \<open>The arithmetic of an engine whose typed arrays have at most \<open>2 ^ 32 - 1\<close> elements.\<close>

definition double_num :: js_num where
  "double_num = \<lparr>fl = ieee_double, maxArrayLength = 4294967295\<rparr>"

datatype ds_error = RangeError | ReadOutOfBounds

text \<open>Reading \<^verbatim>\<open>buffer[offset]\<close>: outside the buffer the read yields \<^verbatim>\<open>undefined\<close>, which is
  no sample; the model stops there with \<open>ReadOutOfBounds\<close>.\<close>

definition read_sample :: "real list \<Rightarrow> int \<Rightarrow> real option" where
  "read_sample buffer offset =
     (if 0 \<le> offset \<and> offset < int (length buffer) then Some (buffer ! nat offset) else None)"

function downsample_loop ::
  "js_num \<Rightarrow> real list \<Rightarrow> real \<Rightarrow> nat \<Rightarrow> nat \<Rightarrow> real list \<Rightarrow> ds_error + real list"
where
  "downsample_loop num buffer ratio newLength i result =
     (if i < newLength then
        (let offset = \<lfloor>fl num (real i * ratio)\<rfloor>
         in if offset < int (length buffer) then
              (case read_sample buffer offset of
                 None \<Rightarrow> Inl ReadOutOfBounds
               | Some v \<Rightarrow> downsample_loop num buffer ratio newLength (i + 1) (result[i := v]))
            else downsample_loop num buffer ratio newLength (i + 1) result)
      else Inr result)"
  by pat_completeness auto
termination
  by (relation "measure (\<lambda>(num, buffer, ratio, newLength, i, result). newLength - i)") auto

declare downsample_loop.simps [simp del]

text \<open>
  \<^verbatim>\<open>new Float32Array(n)\<close> is \<open>n\<close> zeros and throws a \<^verbatim>\<open>RangeError\<close> for a negative \<open>n\<close> and for
  an \<open>n\<close> beyond what the engine allocates. A ratio of zero (a rate of zero, or one so
  small that the quotient rounds to zero) makes the length infinite, or \<^verbatim>\<open>NaN\<close>, read as
  length 0, for an empty buffer; a negative rate makes it negative. The rate is a finite
  number.
\<close>

definition downsampleTo16k :: "js_num \<Rightarrow> real list \<Rightarrow> real \<Rightarrow> ds_error + real list" where
  "downsampleTo16k num buffer inputSampleRate =
     (if inputSampleRate = 16000 then Inr buffer
      else
        (let ratio = fl num (inputSampleRate / 16000)
         in if ratio = 0 then (if buffer = [] then Inr [] else Inl RangeError)
            else
              (let newLength = \<lceil>fl num (real (length buffer) / ratio)\<rceil>
               in if newLength < 0 \<or> int (maxArrayLength num) < newLength then Inl RangeError
                  else downsample_loop num buffer ratio (nat newLength) 0
                         (replicate (nat newLength) 0))))"

subsection \<open>The state of the hook\<close>

datatype NovaStatus = IDLE | CONNECTING | LISTENING | THINKING | SPEAKING | ERROR

text \<open>
  The other \<^verbatim>\<open>useRef\<close> cells and the status. \<open>sourcesRef\<close> holds the start times of the playback
  units that are live; \<open>playbackStarts\<close> is the trace of the arguments of
  \<^verbatim>\<open>source.start\<close>. \<open>timers\<close> is the trace of the calls
  \<^verbatim>\<open>setTimeout(() => connect(apiKey), 2000)\<close>: the key each one captured, and whether it has
  fired.
\<close>

record hook = shared +
  status :: NovaStatus
  isConnectingRef :: bool
  retryCountRef :: nat
  audioBufferRef :: "real list"
  nextStartTimeRef :: real
  sourcesRef :: "real list"
  playbackStarts :: "real list"
  timers :: "(string \<times> bool) list"

text \<open>The initial values of the \<^verbatim>\<open>useState\<close> and \<^verbatim>\<open>useRef\<close> calls.\<close>

definition initial_hook :: hook where
  "initial_hook =
     \<lparr>logs = [], stopRef = False, status = IDLE, isConnectingRef = False, retryCountRef = 0,
      audioBufferRef = [], nextStartTimeRef = 0, sourcesRef = [], playbackStarts = [],
      timers = []\<rparr>"

definition cleanupAudio :: "hook \<Rightarrow> hook" where
  "cleanupAudio h = h\<lparr>sourcesRef := [], audioBufferRef := []\<rparr>"

subsection \<open>Capture (\<^verbatim>\<open>onaudioprocess\<close>)\<close>

definition BUFFER_THRESHOLD :: nat where
  "BUFFER_THRESHOLD = 4096"

text \<open>The size of the frames the script processor delivers, chosen in \<^verbatim>\<open>onopen\<close>.\<close>

definition scriptBufferSize :: "real \<Rightarrow> nat" where
  "scriptBufferSize sampleRate =
     (let s0 = 2048;
          s1 = (if sampleRate \<ge> 44100 then 4096 else s0);
          s2 = (if sampleRate \<ge> 96000 then 8192 else s1)
      in s2)"

definition sumSquares :: "real list \<Rightarrow> real" where
  "sumSquares chunk = foldl (\<lambda>acc x. acc + x * x) 0 chunk"

text \<open>
  One capture frame. The second component is what is handed to
  \<^verbatim>\<open>session.sendRealtimeInput\<close>, if anything. An exception of \<^verbatim>\<open>downsampleTo16k\<close> leaves
  the handler before the accumulator is touched.
\<close>

definition onaudioprocess ::
  "js_num \<Rightarrow> hook \<Rightarrow> real list \<Rightarrow> real \<Rightarrow> hook \<times> blob option"
where
  "onaudioprocess num h inputData sampleRate =
     (if stopRef h then (h, None)
      else
        (case downsampleTo16k num inputData sampleRate of
           Inl e \<Rightarrow> (h, None)
         | Inr downsampledData \<Rightarrow>
             (let newBuffer = audioBufferRef h @ downsampledData;
                  h1 = h\<lparr>audioBufferRef := newBuffer\<rparr>
              in if length (audioBufferRef h1) \<ge> BUFFER_THRESHOLD then
                   (let chunkToSend = take BUFFER_THRESHOLD (audioBufferRef h1);
                        h2 = h1\<lparr>audioBufferRef := drop BUFFER_THRESHOLD (audioBufferRef h1)\<rparr>;
                        rms = sqrt (sumSquares chunkToSend / real (length chunkToSend))
                    in if rms > 0.000001 then (h2, Some (createBlob chunkToSend))
                       else (h2, None))
                 else (h1, None))))"

text \<open>Successive capture frames of one input context, which has one sample rate.\<close>

fun capture_run :: "js_num \<Rightarrow> hook \<Rightarrow> real \<Rightarrow> real list list \<Rightarrow> hook" where
  "capture_run num h sampleRate [] = h"
| "capture_run num h sampleRate (inputData # rest) =
     capture_run num (fst (onaudioprocess num h inputData sampleRate)) sampleRate rest"

text \<open>
  The specification's words, for comparison with \<^verbatim>\<open>onaudioprocess\<close> (section 4.3): "While
  accumulator length \<open>\<ge>\<close> threshold: slice off exactly one chunk (preserving remainder for the
  next frame)". The result is the chunks sliced, in order, and the remainder.
\<close>

function spec_slice_while :: "real list \<Rightarrow> real list list \<times> real list" where
  "spec_slice_while acc =
     (if BUFFER_THRESHOLD \<le> length acc then
        (case spec_slice_while (drop BUFFER_THRESHOLD acc) of
           (chunks, rest) \<Rightarrow> (take BUFFER_THRESHOLD acc # chunks, rest))
      else ([], acc))"
  by pat_completeness auto
termination
  by (relation "measure length") (auto simp add: BUFFER_THRESHOLD_def)

declare spec_slice_while.simps [simp del]

subsection \<open>Playback (\<^verbatim>\<open>onmessage\<close>, lines 430 to 463)\<close>

text \<open>Lines 441 to 453: the decoded buffer is scheduled at \<^verbatim>\<open>nextStartTimeRef.current\<close>.\<close>

definition schedule :: "hook \<Rightarrow> real \<Rightarrow> AudioBuffer \<Rightarrow> hook" where
  "schedule h currentTime audioBuffer =
     (let h1 = (if nextStartTimeRef h < currentTime then h\<lparr>nextStartTimeRef := currentTime\<rparr> else h);
          start = nextStartTimeRef h1;
          h2 = h1\<lparr>playbackStarts := playbackStarts h1 @ [start]\<rparr>;
          h3 = h2\<lparr>nextStartTimeRef := nextStartTimeRef h2 + duration audioBuffer\<rparr>
      in h3\<lparr>sourcesRef := sourcesRef h3 @ [start]\<rparr>)"

definition onmessage_audio :: "hook \<Rightarrow> real \<Rightarrow> string \<Rightarrow> hook" where
  "onmessage_audio h currentTime base64Audio =
     (if stopRef h then h
      else if base64Audio = [] then h
      else
        (let h1 = h\<lparr>status := SPEAKING\<rparr>
         in case decode base64Audio of
              None \<Rightarrow> addLog ''Audio playback error'' LError System None h1
            | Some bytes \<Rightarrow>
                (case decodeAudioData bytes PCM_SAMPLE_RATE_OUTPUT 1 of
                   None \<Rightarrow> addLog ''Audio playback error'' LError System None h1
                 | Some audioBuffer \<Rightarrow> schedule h1 currentTime audioBuffer)))"

text \<open>Successive audio messages: each comes with the output clock's time at its arrival.\<close>

fun schedule_all :: "hook \<Rightarrow> (real \<times> AudioBuffer) list \<Rightarrow> hook" where
  "schedule_all h [] = h"
| "schedule_all h ((currentTime, audioBuffer) # rest) =
     schedule_all (schedule h currentTime audioBuffer) rest"

subsection \<open>Connection (\<^verbatim>\<open>connect\<close>, \<^verbatim>\<open>onerror\<close>)\<close>

text \<open>\<^verbatim>\<open>connect(apiKey)\<close> up to the request for a session; what comes of the request arrives
  later, as a callback. The wake-word detector and the audio contexts, which \<^verbatim>\<open>connect\<close>
  stops and creates on the way, have no field in \<open>hook\<close>.\<close>

definition connect :: "string \<Rightarrow> hook \<Rightarrow> hook" where
  "connect apiKey h =
     (if apiKey = [] then (addLog ''API Key missing'' LError System None h)\<lparr>status := ERROR\<rparr>
      else if isConnectingRef h then h
      else
        (let h1 = h\<lparr>isConnectingRef := True, status := CONNECTING, stopRef := False\<rparr>;
             h2 = addLog (if retryCountRef h1 > 0 then ''Reconnecting to Nova core...''
                          else ''Initializing Nova core systems...'') LInfo System None h1
         in if retryCountRef h2 = 0
            then addLog ''Audio pipeline initialized'' LInfo System None h2
            else h2))"

text \<open>\<^verbatim>\<open>onerror(err)\<close> of the session that \<^verbatim>\<open>connect(apiKey)\<close> requested. \<open>message\<close> is
  \<^verbatim>\<open>err.message\<close>, \<open>None\<close> when there is none.\<close>

definition onerror :: "string \<Rightarrow> string option \<Rightarrow> hook \<Rightarrow> hook" where
  "onerror apiKey message h =
     (let msg = (case message of
                   None \<Rightarrow> ''Unknown error''
                 | Some m \<Rightarrow> if m = [] then ''Unknown error'' else m);
          h1 = (if \<not> js_includes msg ''closed''
                then addLog (''Connection Error: '' @ msg) LError System None h else h);
          h2 = h1\<lparr>status := ERROR, isConnectingRef := False\<rparr>
      in if js_includes msg ''Network error'' \<and> retryCountRef h2 = 0 then
           (let h3 = h2\<lparr>retryCountRef := retryCountRef h2 + 1\<rparr>;
                h4 = addLog ''Attempting auto-reconnect in 2s...'' LInfo System None h3;
                h5 = cleanupAudio h4
            in h5\<lparr>timers := timers h5 @ [(apiKey, False)]\<rparr>)
         else h2)"

text \<open>The oldest pending reconnect timer fires: it is marked, and its \<^verbatim>\<open>connect\<close> runs.\<close>

fun fire_timer :: "(string \<times> bool) list \<Rightarrow> (string \<times> (string \<times> bool) list) option" where
  "fire_timer [] = None"
| "fire_timer ((k, fired) # ts) =
     (if fired then
        (case fire_timer ts of None \<Rightarrow> None | Some (k', ts') \<Rightarrow> Some (k', (k, fired) # ts'))
      else Some (k, (k, True) # ts))"

text \<open>What can happen within one connect cycle, between a \<^verbatim>\<open>connect\<close> and the next open of
  the transport or action of the user: the transport reports an error, or a reconnect
  timer fires.\<close>

datatype event = TransportError "string option" | ReconnectTimer

fun step :: "string \<Rightarrow> event \<Rightarrow> hook \<Rightarrow> hook" where
  "step apiKey (TransportError message) h = onerror apiKey message h"
| "step apiKey ReconnectTimer h =
     (case fire_timer (timers h) of
        None \<Rightarrow> h
      | Some (k, ts) \<Rightarrow> connect k (h\<lparr>timers := ts\<rparr>))"

fun run :: "string \<Rightarrow> event list \<Rightarrow> hook \<Rightarrow> hook" where
  "run apiKey [] h = h"
| "run apiKey (e # es) h = run apiKey es (step apiKey e h)"

section \<open>Tool dispatch\<close>

lemma dispatch_loop_acc:
  "dispatch_loop env fcs rs u =
     (rs @ fst (dispatch_loop env fcs [] u), snd (dispatch_loop env fcs [] u))"
proof (induction fcs arbitrary: rs u)
  case Nil
  show ?case by simp
next
  case (Cons fc fcs)
  obtain r u' where h: "handle_call env fc u = (r, u')"
    by (cases "handle_call env fc u")
  have a: "dispatch_loop env fcs (rs @ [r]) u' =
     ((rs @ [r]) @ fst (dispatch_loop env fcs [] u'), snd (dispatch_loop env fcs [] u'))"
    by (rule Cons.IH)
  have b: "dispatch_loop env fcs [r] u' =
     ([r] @ fst (dispatch_loop env fcs [] u'), snd (dispatch_loop env fcs [] u'))"
    by (rule Cons.IH)
  show ?case using a b by (simp add: h)
qed

lemma dispatch_loop_Cons:
  "dispatch_loop env (fc # fcs) [] u =
     (fst (handle_call env fc u) # fst (dispatch_loop env fcs [] (snd (handle_call env fc u))),
      snd (dispatch_loop env fcs [] (snd (handle_call env fc u))))"
  using dispatch_loop_acc [of env fcs "[fst (handle_call env fc u)]" "snd (handle_call env fc u)"]
  by (simp add: case_prod_beta)

lemma dispatch_loop_length:
  "length (fst (dispatch_loop env fcs [] u)) = length fcs"
  by (induction fcs arbitrary: u) (simp_all add: dispatch_loop_Cons del: dispatch_loop.simps(2))

lemma dispatch_loop_nth:
  "i < length fcs \<Longrightarrow>
   fst (dispatch_loop env fcs [] u) ! i = fst (handle_call env (fcs ! i) (state_before env fcs u i))"
proof (induction fcs arbitrary: u i)
  case Nil
  then show ?case by simp
next
  case (Cons fc fcs)
  show ?case
  proof (cases i)
    case 0
    then show ?thesis by (simp add: dispatch_loop_Cons state_before_def del: dispatch_loop.simps(2))
  next
    case (Suc j)
    with Cons.prems have "j < length fcs" by simp
    from Cons.IH [OF this, of "snd (handle_call env fc u)"] Suc
    show ?thesis by (simp add: dispatch_loop_Cons state_before_def del: dispatch_loop.simps(2))
  qed
qed

lemma handle_call_id_name:
  "fr_id (fst (handle_call env fc u)) = fc_id fc \<and> fr_name (fst (handle_call env fc u)) = fc_name fc"
  by (simp add: handle_call_def Let_def case_prod_beta)

lemma handle_call_result:
  "fr_result (fst (handle_call env fc u)) =
     (case fst (run_tool env fc [(''success'', JBool True)]
                  (addLog (''Executing tool: '' @ fc_name fc) LTool System None u)) of
        Inl m \<Rightarrow> [(''error'', JStr m)]
      | Inr res \<Rightarrow> res)"
  by (simp add: handle_call_def Let_def case_prod_beta split: sum.splits)

lemma onmessage_toolCall_stopped:
  "stopRef u \<Longrightarrow> onmessage_toolCall env functionCalls u = ([], u)"
  by (simp add: onmessage_toolCall_def)

lemma onmessage_toolCall_running:
  "\<not> stopRef u \<Longrightarrow>
   fst (onmessage_toolCall env functionCalls u) = [fst (dispatch_loop env functionCalls [] u)]"
  by (simp add: onmessage_toolCall_def case_prod_beta)

text \<open>
  Claim C2, as stated, fails: \<^verbatim>\<open>onmessage\<close> returns at once when \<^verbatim>\<open>stopRef.current\<close> is set
  (line 428). \<^verbatim>\<open>disconnect\<close> sets the flag and leaves the session open, so a batch can still
  arrive; for it no tool runs and \<^verbatim>\<open>sendToolResponse\<close> is not called.
\<close>

theorem dispatch_batch_counterexample:
  "onmessage_toolCall reference_browser
     [\<lparr>fc_id = ''a'', fc_name = ''changeTheme'', fc_args = Some [(''mode'', JStr ''light'')]\<rparr>,
      \<lparr>fc_id = ''b'', fc_name = ''getSystemStatus'', fc_args = None\<rparr>]
     (initial_ui\<lparr>stopRef := True\<rparr>)
   = ([], initial_ui\<lparr>stopRef := True\<rparr>)"
  by (simp add: onmessage_toolCall_def initial_ui_def)

text \<open>
  Claim C2, amended. A batch of \<open>N\<close> tool calls that arrives while the stop flag is clear is
  answered by one call of \<^verbatim>\<open>sendToolResponse\<close> carrying exactly \<open>N\<close> responses; the \<open>i\<close>-th
  response has the id and the name of the \<open>i\<close>-th call. When the tool of a call throws, its
  response is \<^verbatim>\<open>{error: message}\<close>; when it returns, its response is what it returned.
  Every call of the batch is executed, in the state the calls before it left, whatever
  those did; the handler itself returns a value, so no exception of a tool leaves it. A
  batch that arrives while the stop flag is set is dropped: nothing is sent and the state
  is unchanged.
\<close>

theorem dispatch_batch_complete:
  "(\<not> stopRef u \<longrightarrow>
     (\<exists>rs. fst (onmessage_toolCall env functionCalls u) = [rs]
        \<and> length rs = length functionCalls
        \<and> map fr_id rs = map fc_id functionCalls
        \<and> map fr_name rs = map fc_name functionCalls
        \<and> (\<forall>i < length functionCalls.
             (\<forall>m. fst (run_tool env (functionCalls ! i) [(''success'', JBool True)]
                        (addLog (''Executing tool: '' @ fc_name (functionCalls ! i)) LTool System None
                           (state_before env functionCalls u i))) = Inl m
                  \<longrightarrow> fr_result (rs ! i) = [(''error'', JStr m)])
           \<and> (\<forall>res. fst (run_tool env (functionCalls ! i) [(''success'', JBool True)]
                        (addLog (''Executing tool: '' @ fc_name (functionCalls ! i)) LTool System None
                           (state_before env functionCalls u i))) = Inr res
                  \<longrightarrow> fr_result (rs ! i) = res))))
   \<and> (stopRef u \<longrightarrow> onmessage_toolCall env functionCalls u = ([], u))"
proof -
  let ?rs = "fst (dispatch_loop env functionCalls [] u)"
  have len: "length ?rs = length functionCalls"
    by (rule dispatch_loop_length)
  have nth: "?rs ! i = fst (handle_call env (functionCalls ! i) (state_before env functionCalls u i))"
    if "i < length functionCalls" for i
    using that by (rule dispatch_loop_nth)
  have ids: "map fr_id ?rs = map fc_id functionCalls"
    by (rule nth_equalityI) (simp_all add: len nth handle_call_id_name)
  have names: "map fr_name ?rs = map fc_name functionCalls"
    by (rule nth_equalityI) (simp_all add: len nth handle_call_id_name)
  have res: "fr_result (?rs ! i) =
      (case fst (run_tool env (functionCalls ! i) [(''success'', JBool True)]
                  (addLog (''Executing tool: '' @ fc_name (functionCalls ! i)) LTool System None
                     (state_before env functionCalls u i))) of
         Inl m \<Rightarrow> [(''error'', JStr m)] | Inr r \<Rightarrow> r)"
    if "i < length functionCalls" for i
    using that by (simp add: nth handle_call_result)
  have running: "\<exists>rs. fst (onmessage_toolCall env functionCalls u) = [rs]
        \<and> length rs = length functionCalls
        \<and> map fr_id rs = map fc_id functionCalls
        \<and> map fr_name rs = map fc_name functionCalls
        \<and> (\<forall>i < length functionCalls.
             (\<forall>m. fst (run_tool env (functionCalls ! i) [(''success'', JBool True)]
                        (addLog (''Executing tool: '' @ fc_name (functionCalls ! i)) LTool System None
                           (state_before env functionCalls u i))) = Inl m
                  \<longrightarrow> fr_result (rs ! i) = [(''error'', JStr m)])
           \<and> (\<forall>res. fst (run_tool env (functionCalls ! i) [(''success'', JBool True)]
                        (addLog (''Executing tool: '' @ fc_name (functionCalls ! i)) LTool System None
                           (state_before env functionCalls u i))) = Inr res
                  \<longrightarrow> fr_result (rs ! i) = res))"
    if "\<not> stopRef u"
    using onmessage_toolCall_running [OF that, of env functionCalls] len ids names res
    by (intro exI [of _ ?rs]) simp
  show ?thesis
    using running onmessage_toolCall_stopped [of u env functionCalls] by blast
qed

theorem dispatch_batch_complete_witness:
  "\<exists>rs. fst (onmessage_toolCall reference_browser
            [\<lparr>fc_id = ''a'', fc_name = ''openUrl'', fc_args = None\<rparr>,
             \<lparr>fc_id = ''b'', fc_name = ''changeTheme'', fc_args = Some [(''mode'', JStr ''dark'')]\<rparr>,
             \<lparr>fc_id = ''c'', fc_name = ''getSystemStatus'', fc_args = None\<rparr>]
            initial_ui) = [rs]
     \<and> length rs = 3
     \<and> map fr_id rs = [''a'', ''b'', ''c'']
     \<and> fr_result (rs ! 0) = [(''error'', JStr ''TypeError'')]
     \<and> fr_result (rs ! 1) = [(''themeChangedTo'', JStr ''dark'')]"
proof -
  have ns: "\<not> stopRef initial_ui" by (simp add: initial_ui_def)
  from dispatch_batch_complete [of initial_ui reference_browser
            "[\<lparr>fc_id = ''a'', fc_name = ''openUrl'', fc_args = None\<rparr>,
             \<lparr>fc_id = ''b'', fc_name = ''changeTheme'', fc_args = Some [(''mode'', JStr ''dark'')]\<rparr>,
             \<lparr>fc_id = ''c'', fc_name = ''getSystemStatus'', fc_args = None\<rparr>]"] ns
  show ?thesis
    by (auto simp add: run_tool_def tool_openUrl_def tool_changeTheme_def args_prop_def
        reference_browser_def ref_env_def state_before_def handle_call_def addLog_def
        All_less_Suc2 numeral_3_eq_3)
qed

text \<open>
  Claim C10, as stated, fails for the same reason: a call with an unknown name that arrives
  after \<^verbatim>\<open>disconnect\<close> has set the stop flag gets no response at all.
\<close>

theorem unknown_tool_counterexample:
  "fst (onmessage_toolCall reference_browser
          [\<lparr>fc_id = ''7'', fc_name = ''setAlarm'', fc_args = Some [(''at'', JStr ''noon'')]\<rparr>]
          (initial_ui\<lparr>stopRef := True\<rparr>)) = []"
  by (simp add: onmessage_toolCall_def initial_ui_def)

text \<open>
  Claim C10, amended. In a batch that arrives while the stop flag is clear, a call whose
  name is none of \<^verbatim>\<open>openUrl\<close>, \<^verbatim>\<open>googleSearch\<close>, \<^verbatim>\<open>changeTheme\<close>, \<^verbatim>\<open>getSystemStatus\<close> is
  answered by exactly one response with the call's id and name and the default payload
  \<^verbatim>\<open>{success: true}\<close>: neither an error nor a marker that the tool is unknown. While the stop
  flag is set no response is sent.
\<close>

theorem unknown_tool_default_success:
  assumes "i < length functionCalls"
      and "fc_name (functionCalls ! i) \<notin>
             {''openUrl'', ''googleSearch'', ''changeTheme'', ''getSystemStatus''}"
  shows "(\<not> stopRef u \<longrightarrow>
           (\<exists>rs. fst (onmessage_toolCall env functionCalls u) = [rs]
              \<and> length rs = length functionCalls
              \<and> rs ! i = \<lparr>fr_id = fc_id (functionCalls ! i), fr_name = fc_name (functionCalls ! i),
                          fr_result = [(''success'', JBool True)]\<rparr>))
       \<and> (stopRef u \<longrightarrow> fst (onmessage_toolCall env functionCalls u) = [])"
proof -
  let ?rs = "fst (dispatch_loop env functionCalls [] u)"
  have nth: "?rs ! i = fst (handle_call env (functionCalls ! i) (state_before env functionCalls u i))"
    using assms(1) by (rule dispatch_loop_nth)
  have "fst (handle_call env (functionCalls ! i) v) =
          \<lparr>fr_id = fc_id (functionCalls ! i), fr_name = fc_name (functionCalls ! i),
           fr_result = [(''success'', JBool True)]\<rparr>" for v
    using assms(2) by (simp add: handle_call_def run_tool_def)
  with nth dispatch_loop_length [of env functionCalls u]
  have "\<exists>rs. fst (onmessage_toolCall env functionCalls u) = [rs]
              \<and> length rs = length functionCalls
              \<and> rs ! i = \<lparr>fr_id = fc_id (functionCalls ! i), fr_name = fc_name (functionCalls ! i),
                          fr_result = [(''success'', JBool True)]\<rparr>"
    if "\<not> stopRef u"
    using onmessage_toolCall_running [OF that, of env functionCalls]
    by (intro exI [of _ ?rs]) simp
  then show ?thesis
    by (simp add: onmessage_toolCall_stopped)
qed

theorem unknown_tool_default_success_witness:
  "\<exists>rs. fst (onmessage_toolCall reference_browser
            [\<lparr>fc_id = ''7'', fc_name = ''setAlarm'', fc_args = Some [(''at'', JStr ''noon'')]\<rparr>]
            initial_ui) = [rs]
     \<and> length rs = 1
     \<and> rs ! 0 = \<lparr>fr_id = ''7'', fr_name = ''setAlarm'', fr_result = [(''success'', JBool True)]\<rparr>"
proof -
  have ns: "\<not> stopRef initial_ui" by (simp add: initial_ui_def)
  from unknown_tool_default_success [of 0
            "[\<lparr>fc_id = ''7'', fc_name = ''setAlarm'', fc_args = Some [(''at'', JStr ''noon'')]\<rparr>]"
            initial_ui reference_browser] ns
  show ?thesis by auto
qed

section \<open>Playback scheduling\<close>

lemma decodeAudioData_sampleRate:
  "decodeAudioData data sampleRate numChannels = Some b \<Longrightarrow> ab_sampleRate b = sampleRate"
  by (auto simp add: decodeAudioData_def Let_def split: if_splits)

lemma schedule_nextStartTime:
  "nextStartTimeRef (schedule h currentTime b) =
     (if nextStartTimeRef h < currentTime then currentTime else nextStartTimeRef h) + duration b"
  by (simp add: schedule_def Let_def)

lemma schedule_playbackStarts:
  "playbackStarts (schedule h currentTime b) =
     playbackStarts h @ [if nextStartTimeRef h < currentTime then currentTime else nextStartTimeRef h]"
  by (simp add: schedule_def Let_def)

lemma duration_nonneg: "0 \<le> ab_sampleRate b \<Longrightarrow> 0 \<le> duration b"
  by (simp add: duration_def)

lemma onmessage_audio_nextStartTime:
  "nextStartTimeRef h \<le> nextStartTimeRef (onmessage_audio h currentTime base64Audio)"
proof -
  have "nextStartTimeRef h \<le> nextStartTimeRef (schedule (h\<lparr>status := SPEAKING\<rparr>) currentTime b)"
    if "decodeAudioData bytes PCM_SAMPLE_RATE_OUTPUT 1 = Some b" for bytes b
  proof -
    have "ab_sampleRate b = 24000"
      using decodeAudioData_sampleRate [OF that] by (simp add: PCM_SAMPLE_RATE_OUTPUT_def)
    then have "0 \<le> duration b" by (simp add: duration_nonneg)
    then show ?thesis by (simp add: schedule_nextStartTime)
  qed
  then show ?thesis
    by (simp add: onmessage_audio_def Let_def addLog_def split: option.splits)
qed

text \<open>
  Claim C5. Scheduling a decoded buffer starts it at \<^verbatim>\<open>nextStartTimeRef.current\<close>, after that
  cursor has been raised to the output clock's time if it was behind it, and then advances
  the cursor by the buffer's duration. Handling an audio message never moves the cursor
  back, and the connection and capture handlers leave it alone. From the initial state,
  with the clock at 0, buffers of 1.0, 0.5 and 2.0 seconds start at 0.0, 1.0 and 1.5.
\<close>

theorem schedule_clamps_starts_advances:
  "playbackStarts (schedule h currentTime b) =
     playbackStarts h @ [if nextStartTimeRef h < currentTime then currentTime else nextStartTimeRef h]
   \<and> nextStartTimeRef (schedule h currentTime b) =
       (if nextStartTimeRef h < currentTime then currentTime else nextStartTimeRef h) + duration b
   \<and> nextStartTimeRef h \<le> nextStartTimeRef (onmessage_audio h currentTime base64Audio)
   \<and> (duration b1 = 1.0 \<and> duration b2 = 0.5 \<and> duration b3 = 2.0 \<longrightarrow>
        playbackStarts (schedule_all initial_hook [(0, b1), (0, b2), (0, b3)]) = [0.0, 1.0, 1.5])
   \<and> nextStartTimeRef (connect apiKey h) = nextStartTimeRef h
   \<and> nextStartTimeRef (onerror apiKey message h) = nextStartTimeRef h
   \<and> nextStartTimeRef (fst (onaudioprocess num h inputData sampleRate)) = nextStartTimeRef h"
proof -
  have "playbackStarts (schedule_all initial_hook [(0, b1), (0, b2), (0, b3)]) = [0, 1, 1.5]"
    if "duration b1 = 1" "duration b2 = 0.5" "duration b3 = 2"
    using that by (simp add: schedule_playbackStarts schedule_nextStartTime initial_hook_def)
  moreover have "nextStartTimeRef (connect apiKey h) = nextStartTimeRef h"
    by (simp add: connect_def Let_def addLog_def)
  moreover have "nextStartTimeRef (onerror apiKey message h) = nextStartTimeRef h"
    by (simp add: onerror_def Let_def addLog_def cleanupAudio_def)
  moreover have "nextStartTimeRef (fst (onaudioprocess num h inputData sampleRate)) = nextStartTimeRef h"
    by (simp add: onaudioprocess_def Let_def split: sum.splits)
  ultimately show ?thesis
    by (simp add: schedule_playbackStarts schedule_nextStartTime onmessage_audio_nextStartTime)
qed

theorem schedule_clamps_starts_advances_witness:
  "playbackStarts
     (schedule_all initial_hook
        [(0, \<lparr>ab_sampleRate = 24000, ab_channels = [replicate 24000 0]\<rparr>),
         (0, \<lparr>ab_sampleRate = 24000, ab_channels = [replicate 12000 0]\<rparr>),
         (0, \<lparr>ab_sampleRate = 24000, ab_channels = [replicate 48000 0]\<rparr>)]) = [0.0, 1.0, 1.5]"
proof -
  have d1: "duration \<lparr>ab_sampleRate = 24000, ab_channels = [replicate 24000 0]\<rparr> = 1.0"
    by (simp add: duration_def ab_length_def)
  have d2: "duration \<lparr>ab_sampleRate = 24000, ab_channels = [replicate 12000 0]\<rparr> = 0.5"
    by (simp add: duration_def ab_length_def)
  have d3: "duration \<lparr>ab_sampleRate = 24000, ab_channels = [replicate 48000 0]\<rparr> = 2.0"
    by (simp add: duration_def ab_length_def)
  from schedule_clamps_starts_advances
          [of initial_hook 0 "\<lparr>ab_sampleRate = 24000, ab_channels = [replicate 24000 0]\<rparr>" "[]"
              "\<lparr>ab_sampleRate = 24000, ab_channels = [replicate 24000 0]\<rparr>"
              "\<lparr>ab_sampleRate = 24000, ab_channels = [replicate 12000 0]\<rparr>"
              "\<lparr>ab_sampleRate = 24000, ab_channels = [replicate 48000 0]\<rparr>"]
    d1 d2 d3
  show ?thesis by blast
qed

section \<open>Reconnection\<close>

lemma fire_timer_length: "fire_timer ts = Some (k, ts') \<Longrightarrow> length ts' = length ts"
  by (induction ts arbitrary: k ts') (auto split: if_splits option.splits)

lemma connect_keeps:
  "retryCountRef (connect k h) = retryCountRef h \<and> timers (connect k h) = timers h"
  by (simp add: connect_def Let_def addLog_def)

lemma onerror_status: "status (onerror apiKey message h) = ERROR"
  by (simp add: onerror_def Let_def addLog_def cleanupAudio_def)

lemma onerror_retried:
  "retryCountRef h \<noteq> 0 \<Longrightarrow>
   retryCountRef (onerror apiKey message h) = retryCountRef h \<and>
   timers (onerror apiKey message h) = timers h"
  by (simp add: onerror_def Let_def addLog_def)

lemma step_retried:
  "retryCountRef h \<noteq> 0 \<Longrightarrow>
   retryCountRef (step apiKey e h) \<noteq> 0 \<and> length (timers (step apiKey e h)) = length (timers h)"
proof (cases e)
  case (TransportError message)
  assume "retryCountRef h \<noteq> 0"
  then show ?thesis using TransportError by (simp add: onerror_retried)
next
  case ReconnectTimer
  assume "retryCountRef h \<noteq> 0"
  then show ?thesis using ReconnectTimer
    by (auto simp add: connect_keeps fire_timer_length split: option.splits)
qed

lemma run_retried:
  "retryCountRef h \<noteq> 0 \<Longrightarrow> length (timers (run apiKey evs h)) = length (timers h)"
proof (induction evs arbitrary: h)
  case Nil
  show ?case by simp
next
  case (Cons e evs)
  from step_retried [OF Cons.prems, of apiKey e] Cons.IH [of "step apiKey e h"]
  show ?case by simp
qed

lemma run_snoc: "run apiKey (evs @ [e]) h = step apiKey e (run apiKey evs h)"
  by (induction evs arbitrary: h) simp_all

text \<open>
  Claim C1. When the retry counter is zero and the transport reports an error whose message
  contains \<^verbatim>\<open>Network error\<close>, the status becomes \<open>ERROR\<close>, the counter becomes one and
  exactly one reconnect timer is set. Whatever errors and timer firings follow in the same
  cycle, no other timer is ever set, and after each further error the status is \<open>ERROR\<close>.
\<close>

theorem network_error_retries_once:
  assumes "retryCountRef h = 0" and "js_includes msg ''Network error''"
  shows "status (onerror apiKey (Some msg) h) = ERROR
       \<and> retryCountRef (onerror apiKey (Some msg) h) = 1
       \<and> timers (onerror apiKey (Some msg) h) = timers h @ [(apiKey, False)]
       \<and> (\<forall>evs. length (timers (run apiKey evs (onerror apiKey (Some msg) h)))
                  = length (timers h) + 1)
       \<and> (\<forall>evs message.
             status (run apiKey (evs @ [TransportError message]) (onerror apiKey (Some msg) h))
               = ERROR)"
proof -
  let ?h1 = "onerror apiKey (Some msg) h"
  from assms(2) have ne: "msg \<noteq> []" by auto
  have rc: "retryCountRef ?h1 = 1"
    using assms ne by (simp add: onerror_def Let_def addLog_def cleanupAudio_def)
  have tm: "timers ?h1 = timers h @ [(apiKey, False)]"
    using assms ne by (simp add: onerror_def Let_def addLog_def cleanupAudio_def)
  have "length (timers (run apiKey evs ?h1)) = length (timers h) + 1" for evs
    using run_retried [of ?h1 apiKey evs] rc tm by simp
  moreover have "status (run apiKey (evs @ [TransportError message]) ?h1) = ERROR" for evs message
    by (simp add: run_snoc onerror_status)
  ultimately show ?thesis
    using rc tm by (simp add: onerror_status)
qed

theorem network_error_retries_once_witness:
  "status (onerror ''key'' (Some ''Network error'') initial_hook) = ERROR
   \<and> timers (onerror ''key'' (Some ''Network error'') initial_hook) = [(''key'', False)]
   \<and> length (timers (run ''key'' [ReconnectTimer, TransportError (Some ''Network error'')]
                (onerror ''key'' (Some ''Network error'') initial_hook))) = 1
   \<and> status (run ''key'' ([ReconnectTimer] @ [TransportError (Some ''Network error'')])
                (onerror ''key'' (Some ''Network error'') initial_hook)) = ERROR"
proof -
  have a: "retryCountRef initial_hook = 0" by (simp add: initial_hook_def)
  have b: "js_includes ''Network error'' ''Network error''" by simp
  note t = network_error_retries_once [OF a b, of "''key''"]
  have c: "timers initial_hook = []" by (simp add: initial_hook_def)
  from t have t1: "status (onerror ''key'' (Some ''Network error'') initial_hook) = ERROR"
    and t3: "timers (onerror ''key'' (Some ''Network error'') initial_hook)
               = timers initial_hook @ [(''key'', False)]"
    and t4: "\<And>evs. length (timers (run ''key'' evs
               (onerror ''key'' (Some ''Network error'') initial_hook)))
               = length (timers initial_hook) + 1"
    and t5: "\<And>evs message. status (run ''key'' (evs @ [TransportError message])
               (onerror ''key'' (Some ''Network error'') initial_hook)) = ERROR"
    by blast+
  show ?thesis
    using t1 t3 t4 [of "[ReconnectTimer, TransportError (Some ''Network error'')]"]
      t5 [of "[ReconnectTimer]" "Some ''Network error''"] c
    by simp
qed

section \<open>Resampling\<close>

lemma rounding_mono: "rounding r \<Longrightarrow> x \<le> y \<Longrightarrow> r x \<le> r y"
  by (simp add: rounding_def)

lemma rounding_nat: "rounding r \<Longrightarrow> n \<le> 2 ^ 53 \<Longrightarrow> r (real n) = real n"
  by (simp add: rounding_def)

lemma rounding_fixed:
  assumes "rounding r"
  shows "r 0 = 0" and "r 1 = 1" and "r 2 = 2" and "r 4096 = 4096" and "r (1 / 2) = 1 / 2"
proof -
  show "r 0 = 0" using rounding_nat [OF assms, of 0] by simp
  show "r 1 = 1" using rounding_nat [OF assms, of 1] by simp
  show "r 2 = 2" using rounding_nat [OF assms, of 2] by simp
  show "r 4096 = 4096" using rounding_nat [OF assms, of 4096] by simp
  show "r (1 / 2) = 1 / 2" using assms by (simp add: rounding_def)
qed

lemma rounding_nonneg: "rounding r \<Longrightarrow> 0 \<le> x \<Longrightarrow> 0 \<le> r x"
  using rounding_mono [of r 0 x] rounding_fixed(1) [of r] by simp

lemma rounding_nonpos: "rounding r \<Longrightarrow> x \<le> 0 \<Longrightarrow> r x \<le> 0"
  using rounding_mono [of r x 0] rounding_fixed(1) [of r] by simp

lemma rne_floor: "\<lfloor>x\<rfloor> \<le> rne x \<and> rne x \<le> \<lfloor>x\<rfloor> + 1"
  by (simp add: rne_def Let_def)

lemma rne_of_int: "rne (real_of_int n) = n"
  by (simp add: rne_def)

lemma rne_mono:
  assumes "x \<le> y"
  shows "rne x \<le> rne y"
proof (cases "\<lfloor>x\<rfloor> = \<lfloor>y\<rfloor>")
  case True
  then have "x - real_of_int \<lfloor>x\<rfloor> \<le> y - real_of_int \<lfloor>y\<rfloor>" using assms by simp
  then show ?thesis using True by (simp add: rne_def Let_def)
next
  case False
  moreover have "\<lfloor>x\<rfloor> \<le> \<lfloor>y\<rfloor>" using assms by (rule floor_mono)
  ultimately have "\<lfloor>x\<rfloor> + 1 \<le> \<lfloor>y\<rfloor>" by linarith
  then show ?thesis using rne_floor [of x] rne_floor [of y] by linarith
qed

lemma rne_scaled_upper:
  assumes "0 < q" and "x \<le> real_of_int n * q"
  shows "real_of_int (rne (x / q)) * q \<le> real_of_int n * q"
proof -
  have "x / q \<le> real_of_int n" using assms by (simp add: pos_divide_le_eq)
  then have "rne (x / q) \<le> rne (real_of_int n)" by (rule rne_mono)
  then have "rne (x / q) \<le> n" by (simp only: rne_of_int)
  then show ?thesis using assms(1) by simp
qed

lemma rne_scaled_lower:
  assumes "0 < q" and "real_of_int n * q \<le> x"
  shows "real_of_int n * q \<le> real_of_int (rne (x / q)) * q"
proof -
  have "real_of_int n \<le> x / q" using assms by (simp add: pos_le_divide_eq)
  then have "rne (real_of_int n) \<le> rne (x / q)" by (rule rne_mono)
  then have "n \<le> rne (x / q)" by (simp only: rne_of_int)
  then show ?thesis using assms(1) by simp
qed

lemma rne_scaled_exact:
  assumes "q \<noteq> 0" and "x / q = real_of_int n"
  shows "real_of_int (rne (x / q)) * q = x"
proof -
  have "rne (x / q) = n" unfolding assms(2) by (rule rne_of_int)
  then have "real_of_int (rne (x / q)) * q = (x / q) * q" using assms(2) by simp
  then show ?thesis using assms(1) by simp
qed

lemma pow2_pos: "0 < (2::real) powi k"
  by (simp add: zero_less_power_int)

lemma pow2_Suc: "(2::real) powi (k + 1) = 2 * 2 powi k"
  by (simp add: power_int_add)

lemma pow2_le: "k \<le> l \<Longrightarrow> (2::real) powi k \<le> 2 powi l"
  by (rule power_int_increasing) simp_all

lemma pow2_less_imp: "(2::real) powi k < 2 powi l \<Longrightarrow> k < l"
  using pow2_le [of l k] by (cases "k < l") simp_all

lemma pow2_53: "(2::real) powi (e + 1) = real_of_int (2 ^ 53) * 2 powi (e - 52)"
proof -
  have "e + 1 = (e - 52) + 53" by simp
  then have "(2::real) powi (e + 1) = 2 powi ((e - 52) + 53)" by (rule arg_cong)
  also have "\<dots> = 2 powi (e - 52) * 2 powi 53" by (rule power_int_add) simp
  finally show ?thesis by simp
qed

lemma pow2_52: "(2::real) powi e = real_of_int (2 ^ 52) * 2 powi (e - 52)"
proof -
  have "e = (e - 52) + 52" by simp
  then have "(2::real) powi e = 2 powi ((e - 52) + 52)" by (rule arg_cong)
  also have "\<dots> = 2 powi (e - 52) * 2 powi 52" by (rule power_int_add) simp
  finally show ?thesis by simp
qed

lemma binade_bounds:
  "0 < x \<Longrightarrow> 2 powi binade x \<le> x \<and> x < 2 powi (binade x + 1)"
proof (induction x rule: binade.induct)
  case (1 x)
  show ?case
  proof (cases "2 \<le> x")
    case True
    then have b: "binade x = binade (x / 2) + 1" by (simp add: binade.simps [of x])
    from "1.IH"(1) [OF True] "1.prems"
    have "2 powi binade (x / 2) \<le> x / 2 \<and> x / 2 < 2 powi (binade (x / 2) + 1)" by simp
    then show ?thesis unfolding b pow2_Suc by simp
  next
    case False
    show ?thesis
    proof (cases "x < 1")
      case True
      then have b: "binade (2 * x) = binade x + 1"
        using "1.prems" False by (simp add: binade.simps [of x])
      from "1.IH"(2) [OF False] True "1.prems"
      have "2 powi binade (2 * x) \<le> 2 * x \<and> 2 * x < 2 powi (binade (2 * x) + 1)" by simp
      then show ?thesis unfolding b pow2_Suc by simp
    next
      case x1: False
      then have "binade x = 0" using False by (simp add: binade.simps [of x])
      then show ?thesis using False x1 by simp
    qed
  qed
qed

lemma binade_unique:
  assumes "2 powi e \<le> x" and "x < 2 powi (e + 1)"
  shows "binade x = e"
proof -
  have x: "0 < x" using pow2_pos [of e] assms(1) by linarith
  from binade_bounds [OF x] assms
  have a: "(2::real) powi binade x < 2 powi (e + 1)"
    and b: "(2::real) powi e < 2 powi (binade x + 1)"
    by linarith+
  from a have "binade x < e + 1" by (rule pow2_less_imp)
  moreover from b have "e < binade x + 1" by (rule pow2_less_imp)
  ultimately show ?thesis by linarith
qed

lemma binade_mono:
  assumes "0 < x" and "x \<le> y"
  shows "binade x \<le> binade y"
proof -
  have y: "0 < y" using assms by linarith
  from binade_bounds [OF assms(1)] binade_bounds [OF y] assms(2)
  have "(2::real) powi binade x < 2 powi (binade y + 1)" by linarith
  then have "binade x < binade y + 1" by (rule pow2_less_imp)
  then show ?thesis by linarith
qed

lemma nearest_upper:
  assumes "0 < x"
  shows "nearest x \<le> 2 powi (expo x + 1)"
proof -
  have "x < 2 powi (binade x + 1)" using binade_bounds [OF assms] by simp
  also have "\<dots> \<le> 2 powi (expo x + 1)" by (rule pow2_le) (simp add: expo_def)
  finally have "x \<le> real_of_int (2 ^ 53) * 2 powi (expo x - 52)" unfolding pow2_53 by simp
  from rne_scaled_upper [OF pow2_pos this] show ?thesis
    unfolding nearest_def pow2_53 .
qed

lemma nearest_lower:
  assumes "0 < x" and "- 1022 \<le> binade x"
  shows "2 powi expo x \<le> nearest x"
proof -
  have e: "expo x = binade x" using assms(2) by (simp add: expo_def)
  have "2 powi expo x \<le> x" using binade_bounds [OF assms(1)] by (simp add: e)
  then have "real_of_int (2 ^ 52) * 2 powi (expo x - 52) \<le> x"
    using pow2_52 [of "expo x"] by simp
  from rne_scaled_lower [OF pow2_pos this] show ?thesis
    unfolding nearest_def using pow2_52 [of "expo x"] by simp
qed

lemma nearest_nonneg:
  assumes "0 \<le> x"
  shows "0 \<le> nearest x"
proof -
  have "real_of_int 0 * 2 powi (expo x - 52) \<le> x" using assms by simp
  from rne_scaled_lower [OF pow2_pos this] show ?thesis
    unfolding nearest_def by simp
qed

lemma nearest_mono:
  assumes "0 < x" and "x \<le> y"
  shows "nearest x \<le> nearest y"
proof -
  have y: "0 < y" using assms by linarith
  have le: "expo x \<le> expo y" using binade_mono [OF assms] by (simp add: expo_def)
  show ?thesis
  proof (cases "expo x = expo y")
    case True
    have "x / 2 powi (expo y - 52) \<le> y / 2 powi (expo y - 52)"
      using assms(2) pow2_pos [of "expo y - 52"] by (simp add: divide_right_mono)
    then have "rne (x / 2 powi (expo y - 52)) \<le> rne (y / 2 powi (expo y - 52))"
      by (rule rne_mono)
    then show ?thesis
      unfolding nearest_def True using pow2_pos [of "expo y - 52"] by simp
  next
    case False
    with le have lt: "expo x + 1 \<le> expo y" by linarith
    have "- 1022 \<le> expo x" by (simp add: expo_def)
    with lt have bin: "- 1022 \<le> binade y" by (simp add: expo_def max_def split: if_splits)
    have "nearest x \<le> 2 powi (expo x + 1)" by (rule nearest_upper [OF assms(1)])
    also have "\<dots> \<le> 2 powi expo y" by (rule pow2_le [OF lt])
    also have "\<dots> \<le> nearest y" by (rule nearest_lower [OF y bin])
    finally show ?thesis .
  qed
qed

lemma round_pos_nonneg: "0 \<le> x \<Longrightarrow> 0 \<le> round_pos x"
  using nearest_nonneg [of x] by (simp add: round_pos_def)

lemma round_pos_zero: "round_pos 0 = 0"
  by (simp add: round_pos_def nearest_def rne_def)

lemma round_pos_mono:
  assumes "0 \<le> x" and "x \<le> y"
  shows "round_pos x \<le> round_pos y"
proof (cases "x = 0")
  case True
  have "0 \<le> y" using assms by linarith
  then show ?thesis unfolding True round_pos_zero by (rule round_pos_nonneg)
next
  case False
  with assms(1) have "0 < x" by simp
  from nearest_mono [OF this assms(2)] show ?thesis
    by (simp add: round_pos_def)
qed

lemma ieee_double_mono:
  assumes "x \<le> y"
  shows "ieee_double x \<le> ieee_double y"
proof (cases "0 \<le> x")
  case True
  then have "0 \<le> y" using assms by linarith
  with True round_pos_mono [OF True assms] show ?thesis by (simp add: ieee_double_def)
next
  case False
  then have x: "x < 0" by simp
  show ?thesis
  proof (cases "0 \<le> y")
    case True
    have "0 \<le> round_pos (- x)" using x by (intro round_pos_nonneg) simp
    moreover have "0 \<le> round_pos y" using True by (rule round_pos_nonneg)
    ultimately show ?thesis using x True by (simp add: ieee_double_def)
  next
    case y: False
    have "round_pos (- y) \<le> round_pos (- x)" using y assms by (intro round_pos_mono) simp_all
    then show ?thesis using x y by (simp add: ieee_double_def)
  qed
qed

lemma ieee_double_nat:
  assumes "n \<le> 2 ^ 53"
  shows "ieee_double (real n) = real n"
proof (cases "n = 0")
  case True
  then show ?thesis by (simp add: ieee_double_def round_pos_zero)
next
  case False
  then have x: "0 < real n" and x1: "2 powi 0 \<le> real n" by simp_all
  have xu: "real n \<le> 2 ^ 53" using assms by (metis of_nat_le_iff of_nat_numeral of_nat_power)
  have b0: "0 \<le> binade (real n)"
  proof -
    have "(2::real) powi 0 < 2 powi (binade (real n) + 1)"
      using binade_bounds [OF x] x1 by linarith
    then have "0 < binade (real n) + 1" by (rule pow2_less_imp)
    then show ?thesis by linarith
  qed
  then have e: "expo (real n) = binade (real n)" by (simp add: expo_def)
  have b53: "binade (real n) \<le> 53"
  proof -
    have "(2::real) powi binade (real n) \<le> 2 ^ 53" using binade_bounds [OF x] xu by linarith
    also have "\<dots> < 2 powi 54" by simp
    finally have "binade (real n) < 54" by (rule pow2_less_imp)
    then show ?thesis by linarith
  qed
  have "\<exists>m. real n / 2 powi (expo (real n) - 52) = real_of_int m"
  proof (cases "binade (real n) = 53")
    case True
    then have "2 ^ 53 \<le> real n" using binade_bounds [OF x] by simp
    with xu have n: "real n = 2 ^ 53" by linarith
    have ex: "expo (real n) = 53" using e True by simp
    have "real n / 2 powi (expo (real n) - 52) = real_of_int (2 ^ 52)"
      unfolding ex unfolding n by simp
    then show ?thesis ..
  next
    case False
    with b53 have k: "0 \<le> 52 - binade (real n)" by linarith
    have "(2::real) powi (binade (real n) - 52) = 1 / 2 powi (52 - binade (real n))"
      using power_int_minus_divide [of "2::real" "52 - binade (real n)"] by simp
    also have "\<dots> = 1 / 2 ^ nat (52 - binade (real n))"
      using k by (simp add: power_int_nonneg_exp)
    finally have "real n / 2 powi (expo (real n) - 52)
        = real_of_int (int n * 2 ^ nat (52 - binade (real n)))"
      unfolding e by simp
    then show ?thesis ..
  qed
  then obtain m where m: "real n / 2 powi (expo (real n) - 52) = real_of_int m" ..
  have q: "(2::real) powi (expo (real n) - 52) \<noteq> 0" using pow2_pos [of "expo (real n) - 52"] by simp
  have "nearest (real n) = real n"
    unfolding nearest_def by (rule rne_scaled_exact [OF q m])
  moreover have "real n < 2 ^ 1024" using xu by (rule le_less_trans) simp
  ultimately show ?thesis by (simp add: ieee_double_def round_pos_def)
qed

lemma ieee_double_half: "ieee_double (1 / 2) = 1 / 2"
proof -
  have b: "binade (1 / 2) = - 1" by (rule binade_unique) simp_all
  show ?thesis by (simp add: ieee_double_def round_pos_def nearest_def expo_def b rne_def)
qed

lemma rounding_ieee_double: "rounding ieee_double"
  unfolding rounding_def using ieee_double_mono ieee_double_nat ieee_double_half by blast

lemma downsample_loop_spec:
  "(\<And>j. 0 \<le> fl num (real j * ratio)) \<Longrightarrow> length result = newLength \<Longrightarrow>
   \<exists>r. downsample_loop num buffer ratio newLength i result = Inr r
       \<and> length r = newLength
       \<and> (\<forall>j < newLength.
             r ! j = (if i \<le> j \<and> \<lfloor>fl num (real j * ratio)\<rfloor> < int (length buffer)
                      then buffer ! nat \<lfloor>fl num (real j * ratio)\<rfloor> else result ! j))"
proof (induction num buffer ratio newLength i result rule: downsample_loop.induct)
  case (1 num buffer ratio newLength i result)
  show ?case
  proof (cases "i < newLength")
    case False
    then show ?thesis
      using "1.prems" by (simp add: downsample_loop.simps [of num buffer ratio newLength i result])
  next
    case True
    let ?offset = "\<lfloor>fl num (real i * ratio)\<rfloor>"
    have nonneg: "0 \<le> ?offset" using "1.prems"(1) [of i] by simp
    show ?thesis
    proof (cases "?offset < int (length buffer)")
      case False
      from "1.IH"(2) [OF True refl False "1.prems"]
      obtain r where r: "downsample_loop num buffer ratio newLength (i + 1) result = Inr r"
        "length r = newLength"
        "\<forall>j < newLength.
             r ! j = (if i + 1 \<le> j \<and> \<lfloor>fl num (real j * ratio)\<rfloor> < int (length buffer)
                      then buffer ! nat \<lfloor>fl num (real j * ratio)\<rfloor> else result ! j)"
        by blast
      have "downsample_loop num buffer ratio newLength i result = Inr r"
        using True False r(1)
        by (simp add: downsample_loop.simps [of num buffer ratio newLength i result])
      moreover have "r ! j = (if i \<le> j \<and> \<lfloor>fl num (real j * ratio)\<rfloor> < int (length buffer)
                      then buffer ! nat \<lfloor>fl num (real j * ratio)\<rfloor> else result ! j)"
        if "j < newLength" for j
      proof (cases "j = i")
        case True
        then show ?thesis using r(3) that False by simp
      next
        case False
        then show ?thesis using r(3) that by auto
      qed
      ultimately show ?thesis using r(2) by blast
    next
      case inb: True
      let ?v = "buffer ! nat ?offset"
      have rd: "read_sample buffer ?offset = Some ?v"
        using nonneg inb by (simp add: read_sample_def)
      have len': "length (result[i := ?v]) = newLength" using "1.prems"(2) by simp
      from "1.IH"(1) [OF True refl inb rd "1.prems"(1) len']
      obtain r where r:
        "downsample_loop num buffer ratio newLength (i + 1) (result[i := ?v]) = Inr r"
        "length r = newLength"
        "\<forall>j < newLength.
             r ! j = (if i + 1 \<le> j \<and> \<lfloor>fl num (real j * ratio)\<rfloor> < int (length buffer)
                      then buffer ! nat \<lfloor>fl num (real j * ratio)\<rfloor> else result[i := ?v] ! j)"
        by blast
      have "downsample_loop num buffer ratio newLength i result = Inr r"
        using True inb rd r(1)
        by (simp add: downsample_loop.simps [of num buffer ratio newLength i result])
      moreover have "r ! j = (if i \<le> j \<and> \<lfloor>fl num (real j * ratio)\<rfloor> < int (length buffer)
                      then buffer ! nat \<lfloor>fl num (real j * ratio)\<rfloor> else result ! j)"
        if "j < newLength" for j
      proof (cases "j = i")
        case True
        then show ?thesis using r(3) that inb "1.prems"(2) by simp
      next
        case False
        then show ?thesis using r(3) that by auto
      qed
      ultimately show ?thesis using r(2) by blast
    qed
  qed
qed

lemma downsample_loop_empty: "downsample_loop num buffer ratio 0 0 result = Inr result"
  by (simp add: downsample_loop.simps [of num buffer ratio 0 0 result])

lemma downsampleTo16k_resampled:
  assumes "rounding (fl num)" and "inputSampleRate \<noteq> 16000"
    and "0 < fl num (inputSampleRate / 16000)"
    and "\<lceil>fl num (real (length buffer) / fl num (inputSampleRate / 16000))\<rceil>
           \<le> int (maxArrayLength num)"
  shows "\<exists>out. downsampleTo16k num buffer inputSampleRate = Inr out
           \<and> length out = nat \<lceil>fl num (real (length buffer) / fl num (inputSampleRate / 16000))\<rceil>
           \<and> (\<forall>i < length out.
                 out ! i =
                   (if \<lfloor>fl num (real i * fl num (inputSampleRate / 16000))\<rfloor> < int (length buffer)
                    then buffer ! nat \<lfloor>fl num (real i * fl num (inputSampleRate / 16000))\<rfloor>
                    else 0))"
proof -
  let ?ratio = "fl num (inputSampleRate / 16000)"
  let ?n = "\<lceil>fl num (real (length buffer) / ?ratio)\<rceil>"
  have "0 \<le> real (length buffer) / ?ratio"
    using assms(3) by (intro divide_nonneg_pos) simp_all
  then have "0 \<le> fl num (real (length buffer) / ?ratio)"
    by (rule rounding_nonneg [OF assms(1)])
  then have n0: "0 \<le> ?n" by (simp only: zero_le_ceiling)
  have eq: "downsampleTo16k num buffer inputSampleRate =
              downsample_loop num buffer ?ratio (nat ?n) 0 (replicate (nat ?n) 0)"
    using assms(2,3,4) n0 by (simp add: downsampleTo16k_def Let_def)
  have off: "0 \<le> fl num (real j * ?ratio)" for j
    using assms(3) by (intro rounding_nonneg [OF assms(1)]) simp
  from downsample_loop_spec [of num ?ratio "replicate (nat ?n) 0" "nat ?n" buffer 0, OF off]
  obtain r where r: "downsample_loop num buffer ?ratio (nat ?n) 0 (replicate (nat ?n) 0) = Inr r"
    "length r = nat ?n"
    "\<forall>j < nat ?n.
        r ! j = (if 0 \<le> j \<and> \<lfloor>fl num (real j * ?ratio)\<rfloor> < int (length buffer)
                 then buffer ! nat \<lfloor>fl num (real j * ?ratio)\<rfloor> else replicate (nat ?n) 0 ! j)"
    by auto
  show ?thesis
    using eq r by (intro exI [of _ r]) simp
qed

lemma downsampleTo16k_refused:
  assumes "rounding (fl num)" and "inputSampleRate \<noteq> 16000"
    and "\<not> (0 < fl num (inputSampleRate / 16000)
            \<and> \<lceil>fl num (real (length buffer) / fl num (inputSampleRate / 16000))\<rceil>
                 \<le> int (maxArrayLength num))"
  shows "downsampleTo16k num buffer inputSampleRate = Inl RangeError
       \<or> downsampleTo16k num buffer inputSampleRate = Inr []"
proof -
  let ?ratio = "fl num (inputSampleRate / 16000)"
  let ?n = "\<lceil>fl num (real (length buffer) / ?ratio)\<rceil>"
  consider "?ratio = 0" | "?ratio \<noteq> 0" "?n < 0 \<or> int (maxArrayLength num) < ?n"
    | "?ratio < 0" "0 \<le> ?n" "?n \<le> int (maxArrayLength num)"
    using assms(3) by linarith
  then show ?thesis
  proof cases
    case 1
    then show ?thesis using assms(2) by (simp add: downsampleTo16k_def Let_def)
  next
    case 2
    then show ?thesis using assms(2) by (simp add: downsampleTo16k_def Let_def)
  next
    case 3
    have "real (length buffer) / ?ratio \<le> 0"
      using 3(1) by (intro divide_nonneg_neg) simp_all
    then have "fl num (real (length buffer) / ?ratio) \<le> 0"
      by (rule rounding_nonpos [OF assms(1)])
    then have "?n \<le> 0" by (simp add: ceiling_le_iff)
    with 3(2) have n: "?n = 0" by linarith
    have "downsampleTo16k num buffer inputSampleRate =
            downsample_loop num buffer ?ratio (nat ?n) 0 (replicate (nat ?n) 0)"
      using assms(2) 3 by (simp add: downsampleTo16k_def Let_def)
    then show ?thesis by (simp add: n downsample_loop_empty)
  qed
qed



section \<open>Capture: chunking and the silence gate\<close>

lemma resampled_frame_length:
  assumes "rounding (fl num)" and "8000 \<le> sampleRate"
    and "length inputData = scriptBufferSize sampleRate"
    and "downsampleTo16k num inputData sampleRate = Inr d"
  shows "length d \<le> BUFFER_THRESHOLD"
proof (cases "sampleRate = 16000")
  case True
  then show ?thesis
    using assms(3,4) by (simp add: downsampleTo16k_def scriptBufferSize_def BUFFER_THRESHOLD_def)
next
  case False
  let ?ratio = "fl num (sampleRate / 16000)"
  let ?q = "real (length inputData) / ?ratio"
  have half: "1 / 2 \<le> ?ratio"
    using rounding_mono [OF assms(1), of "1 / 2" "sampleRate / 16000"] assms(2)
    by (simp add: rounding_fixed(5) [OF assms(1)])
  then have pos: "0 < ?ratio" by simp
  show ?thesis
  proof (cases "\<lceil>fl num ?q\<rceil> \<le> int (maxArrayLength num)")
    case no: False
    with downsampleTo16k_refused [OF assms(1) False, of inputData] assms(4)
    have "d = []" by auto
    then show ?thesis by simp
  next
    case True
    from downsampleTo16k_resampled [OF assms(1) False pos True] assms(4)
    have len: "length d = nat \<lceil>fl num ?q\<rceil>" by auto
    have "real (length inputData) \<le> 4096 * ?ratio"
    proof -
      consider "96000 \<le> sampleRate" | "44100 \<le> sampleRate" "sampleRate < 96000"
        | "sampleRate < 44100" by linarith
      then show ?thesis
      proof cases
        case 1
        then have "2 \<le> ?ratio"
          using rounding_mono [OF assms(1), of 2 "sampleRate / 16000"]
          by (simp add: rounding_fixed(3) [OF assms(1)])
        moreover have "length inputData = 8192"
          using 1 assms(3) by (simp add: scriptBufferSize_def)
        ultimately show ?thesis by simp
      next
        case 2
        then have "1 \<le> ?ratio"
          using rounding_mono [OF assms(1), of 1 "sampleRate / 16000"]
          by (simp add: rounding_fixed(2) [OF assms(1)])
        moreover have "length inputData = 4096"
          using 2 assms(3) by (simp add: scriptBufferSize_def)
        ultimately show ?thesis by simp
      next
        case 3
        then have "length inputData = 2048"
          using assms(3) by (simp add: scriptBufferSize_def)
        then show ?thesis using half by simp
      qed
    qed
    then have "?q \<le> 4096"
      using pos by (simp add: pos_divide_le_eq)
    then have "fl num ?q \<le> 4096"
      using rounding_mono [OF assms(1), of ?q 4096] by (simp add: rounding_fixed(4) [OF assms(1)])
    then have "\<lceil>fl num ?q\<rceil> \<le> 4096"
      by (simp add: ceiling_le_iff)
    then show ?thesis using len by (simp add: BUFFER_THRESHOLD_def)
  qed
qed

lemma onaudioprocess_accumulator:
  assumes "\<not> stopRef h" and "downsampleTo16k num inputData sampleRate = Inr d"
  shows "audioBufferRef (fst (onaudioprocess num h inputData sampleRate)) =
           (if BUFFER_THRESHOLD \<le> length (audioBufferRef h @ d)
            then drop BUFFER_THRESHOLD (audioBufferRef h @ d) else audioBufferRef h @ d)"
  using assms by (simp add: onaudioprocess_def Let_def)

lemma onaudioprocess_emission:
  assumes "\<not> stopRef h" and "downsampleTo16k num inputData sampleRate = Inr d"
  shows "snd (onaudioprocess num h inputData sampleRate) = None
       \<or> (BUFFER_THRESHOLD \<le> length (audioBufferRef h @ d)
          \<and> snd (onaudioprocess num h inputData sampleRate)
              = Some (createBlob (take BUFFER_THRESHOLD (audioBufferRef h @ d))))"
  using assms by (simp add: onaudioprocess_def Let_def)

lemma onaudioprocess_stopped:
  "stopRef h \<Longrightarrow> onaudioprocess num h inputData sampleRate = (h, None)"
  by (simp add: onaudioprocess_def)

lemma onaudioprocess_throws:
  "downsampleTo16k num inputData sampleRate = Inl e \<Longrightarrow>
   onaudioprocess num h inputData sampleRate = (h, None)"
  by (simp add: onaudioprocess_def)

lemma onaudioprocess_stopRef:
  "stopRef (fst (onaudioprocess num h inputData sampleRate)) = stopRef h"
  by (simp add: onaudioprocess_def Let_def split: sum.splits)

lemma capture_run_stopRef: "stopRef (capture_run num h sampleRate frames) = stopRef h"
  by (induction frames arbitrary: h) (simp_all add: onaudioprocess_stopRef)

lemma onaudioprocess_below:
  assumes "rounding (fl num)" and "8000 \<le> sampleRate"
    and "length inputData = scriptBufferSize sampleRate"
    and "length (audioBufferRef h) < BUFFER_THRESHOLD"
  shows "length (audioBufferRef (fst (onaudioprocess num h inputData sampleRate))) < BUFFER_THRESHOLD"
proof (cases "stopRef h")
  case True
  then show ?thesis using assms(4) by (simp add: onaudioprocess_stopped)
next
  case False
  show ?thesis
  proof (cases "downsampleTo16k num inputData sampleRate")
    case (Inl e)
    then show ?thesis using assms(4) by (simp add: onaudioprocess_throws)
  next
    case (Inr d)
    from resampled_frame_length [OF assms(1,2,3) Inr]
    have "length (audioBufferRef h @ d) < 2 * BUFFER_THRESHOLD"
      using assms(4) by simp
    then show ?thesis
      by (simp only: onaudioprocess_accumulator [OF False Inr]) auto
  qed
qed

lemma capture_run_below:
  assumes "rounding (fl num)" and "8000 \<le> sampleRate"
  shows "\<forall>f \<in> set frames. length f = scriptBufferSize sampleRate \<Longrightarrow>
         length (audioBufferRef h) < BUFFER_THRESHOLD \<Longrightarrow>
         length (audioBufferRef (capture_run num h sampleRate frames)) < BUFFER_THRESHOLD"
proof (induction frames arbitrary: h)
  case Nil
  then show ?case by simp
next
  case (Cons f frames)
  from Cons.prems have f: "length f = scriptBufferSize sampleRate"
    and rest: "\<forall>g \<in> set frames. length g = scriptBufferSize sampleRate"
    by simp_all
  from onaudioprocess_below [OF assms f Cons.prems(2)] Cons.IH [OF rest]
  show ?case by simp
qed

lemma spec_slice_while_short:
  "length acc < BUFFER_THRESHOLD \<Longrightarrow> spec_slice_while acc = ([], acc)"
  by (simp add: spec_slice_while.simps [of acc])

lemma spec_slice_while_once:
  assumes "BUFFER_THRESHOLD \<le> length acc" and "length acc < 2 * BUFFER_THRESHOLD"
  shows "spec_slice_while acc = ([take BUFFER_THRESHOLD acc], drop BUFFER_THRESHOLD acc)"
proof -
  have "length (drop BUFFER_THRESHOLD acc) < BUFFER_THRESHOLD"
    using assms by simp
  then have "spec_slice_while (drop BUFFER_THRESHOLD acc) = ([], drop BUFFER_THRESHOLD acc)"
    by (rule spec_slice_while_short)
  then show ?thesis
    using assms(1) by (simp add: spec_slice_while.simps [of acc])
qed

text \<open>
  Claim C3. Take the capture frames of one input context: frames of the script processor's
  size, at a sample rate of at least 8000 Hz, starting with an empty accumulator (as it is
  initially and after every \<^verbatim>\<open>cleanupAudio\<close>). After each frame the accumulator holds fewer
  than 4096 samples. For a frame that is processed, the single test of the threshold does
  what the loop of the specification does: the remainder it keeps is the remainder of the
  loop, the loop slices at most one chunk, and a blob that is sent is the encoding of the
  chunk the loop slices.
\<close>

theorem accumulator_below_threshold:
  fixes num h sampleRate frames inputData
  defines "h' \<equiv> capture_run num h sampleRate frames"
  assumes "rounding (fl num)" and "8000 \<le> sampleRate" and "audioBufferRef h = []"
    and "\<forall>f \<in> set (frames @ [inputData]). length f = scriptBufferSize sampleRate"
  shows "length (audioBufferRef (fst (onaudioprocess num h' inputData sampleRate))) < BUFFER_THRESHOLD
       \<and> (\<forall>d. \<not> stopRef h' \<and> downsampleTo16k num inputData sampleRate = Inr d \<longrightarrow>
             audioBufferRef (fst (onaudioprocess num h' inputData sampleRate))
               = snd (spec_slice_while (audioBufferRef h' @ d))
           \<and> length (fst (spec_slice_while (audioBufferRef h' @ d))) \<le> 1
           \<and> (snd (onaudioprocess num h' inputData sampleRate) = None
              \<or> (\<exists>chunk. fst (spec_slice_while (audioBufferRef h' @ d)) = [chunk]
                    \<and> length chunk = BUFFER_THRESHOLD
                    \<and> snd (onaudioprocess num h' inputData sampleRate) = Some (createBlob chunk))))"
proof -
  from assms(5) have fs: "\<forall>f \<in> set frames. length f = scriptBufferSize sampleRate"
    and f: "length inputData = scriptBufferSize sampleRate"
    by simp_all
  have "length (audioBufferRef h) < BUFFER_THRESHOLD"
    using assms(4) by (simp add: BUFFER_THRESHOLD_def)
  from capture_run_below [OF assms(2,3) fs this]
  have below: "length (audioBufferRef h') < BUFFER_THRESHOLD"
    by (simp add: h'_def)
  have bound: "length (audioBufferRef (fst (onaudioprocess num h' inputData sampleRate)))
                 < BUFFER_THRESHOLD"
    by (rule onaudioprocess_below [OF assms(2,3) f below])
  have loop: "audioBufferRef (fst (onaudioprocess num h' inputData sampleRate))
               = snd (spec_slice_while (audioBufferRef h' @ d))
           \<and> length (fst (spec_slice_while (audioBufferRef h' @ d))) \<le> 1
           \<and> (snd (onaudioprocess num h' inputData sampleRate) = None
              \<or> (\<exists>chunk. fst (spec_slice_while (audioBufferRef h' @ d)) = [chunk]
                    \<and> length chunk = BUFFER_THRESHOLD
                    \<and> snd (onaudioprocess num h' inputData sampleRate) = Some (createBlob chunk)))"
    if run: "\<not> stopRef h'" and d: "downsampleTo16k num inputData sampleRate = Inr d" for d
  proof (cases "BUFFER_THRESHOLD \<le> length (audioBufferRef h' @ d)")
    case False
    then have s: "spec_slice_while (audioBufferRef h' @ d) = ([], audioBufferRef h' @ d)"
      by (intro spec_slice_while_short) simp
    have "snd (onaudioprocess num h' inputData sampleRate) = None"
      using onaudioprocess_emission [OF run d] False by blast
    then show ?thesis
      using False by (simp add: s onaudioprocess_accumulator [OF run d])
  next
    case True
    from resampled_frame_length [OF assms(2,3) f d] below
    have "length (audioBufferRef h' @ d) < 2 * BUFFER_THRESHOLD" by simp
    from spec_slice_while_once [OF True this]
    have s: "spec_slice_while (audioBufferRef h' @ d)
               = ([take BUFFER_THRESHOLD (audioBufferRef h' @ d)],
                  drop BUFFER_THRESHOLD (audioBufferRef h' @ d))" .
    have l: "length (take BUFFER_THRESHOLD (audioBufferRef h' @ d)) = BUFFER_THRESHOLD"
      using True by simp
    have rem: "audioBufferRef (fst (onaudioprocess num h' inputData sampleRate))
                 = drop BUFFER_THRESHOLD (audioBufferRef h' @ d)"
      using True by (simp only: onaudioprocess_accumulator [OF run d] if_True)
    show ?thesis
      using onaudioprocess_emission [OF run d] l by (auto simp add: s rem)
  qed
  show ?thesis using bound loop by blast
qed

theorem accumulator_below_threshold_witness:
  "length (audioBufferRef
     (fst (onaudioprocess double_num
             (capture_run double_num initial_hook 16000 [replicate 2048 (1 / 2)])
             (replicate 2048 (1 / 2)) 16000))) < BUFFER_THRESHOLD
   \<and> audioBufferRef
       (fst (onaudioprocess double_num
               (capture_run double_num initial_hook 16000 [replicate 2048 (1 / 2)])
               (replicate 2048 (1 / 2)) 16000)) = []
   \<and> spec_slice_while (replicate 2048 (1 / 2) @ replicate 2048 (1 / 2))
       = ([replicate 4096 (1 / 2)], [])"
proof -
  let ?f = "replicate 2048 (1 / 2 :: real)"
  let ?h' = "capture_run double_num initial_hook 16000 [?f]"
  have r: "rounding (fl double_num)" by (simp add: double_num_def rounding_ieee_double)
  have e: "audioBufferRef initial_hook = []" by (simp add: initial_hook_def)
  have ns: "\<not> stopRef initial_hook" by (simp add: initial_hook_def)
  have hz: "(8000 :: real) \<le> 16000" by simp
  have sz: "\<forall>f \<in> set ([?f] @ [?f]). length f = scriptBufferSize 16000"
    by (simp add: scriptBufferSize_def)
  have ds: "downsampleTo16k double_num ?f 16000 = Inr ?f" by (simp add: downsampleTo16k_def)
  have acc: "audioBufferRef ?h' = ?f"
    using onaudioprocess_accumulator [OF ns ds] by (simp add: e BUFFER_THRESHOLD_def)
  have run: "\<not> stopRef ?h'" unfolding capture_run_stopRef by (rule ns)
  have once: "spec_slice_while (?f @ ?f) = ([replicate 4096 (1 / 2)], [])"
    using spec_slice_while_once [of "?f @ ?f"]
    by (simp add: BUFFER_THRESHOLD_def replicate_add [symmetric])
  note t = accumulator_below_threshold [OF r hz e sz]
  from t have t1: "length (audioBufferRef (fst (onaudioprocess double_num ?h' ?f 16000)))
                     < BUFFER_THRESHOLD"
    by blast
  from t run ds have t2: "audioBufferRef (fst (onaudioprocess double_num ?h' ?f 16000))
           = snd (spec_slice_while (audioBufferRef ?h' @ ?f))"
    by blast
  show ?thesis using t1 t2 once by (simp only: acc) simp
qed

lemma sumSquares_foldl:
  "foldl (\<lambda>acc x. acc + x * x) a chunk = a + sum_list (map (\<lambda>x. x * x) chunk)"
  for a :: real
  by (induction chunk arbitrary: a) simp_all

lemma sumSquares_sum_list: "sumSquares chunk = sum_list (map (\<lambda>x. x * x) chunk)"
  by (simp add: sumSquares_def sumSquares_foldl)

lemma sumSquares_nonneg: "0 \<le> sumSquares chunk"
  unfolding sumSquares_sum_list by (rule sum_list_nonneg) auto

lemma sumSquares_member: "x \<in> set chunk \<Longrightarrow> x * x \<le> sumSquares chunk"
proof (induction chunk)
  case Nil
  then show ?case by simp
next
  case (Cons y ys)
  have "0 \<le> y * y" by simp
  moreover have "0 \<le> sumSquares ys" by (rule sumSquares_nonneg)
  ultimately show ?case
    using Cons by (auto simp add: sumSquares_sum_list add_increasing add_increasing2)
qed

lemma sumSquares_zero: "\<forall>x \<in> set chunk. x = 0 \<Longrightarrow> sumSquares chunk = 0"
  by (induction chunk) (simp_all add: sumSquares_sum_list)

lemma loud_chunk_rms:
  assumes "x \<in> set chunk" and "0.01 \<le> \<bar>x\<bar>" and "length chunk = 4096"
  shows "0.000001 < sqrt (sumSquares chunk / real (length chunk))"
proof -
  have "0.01 * 0.01 \<le> \<bar>x\<bar> * \<bar>x\<bar>"
    using assms(2) by (intro mult_mono) simp_all
  then have "0.0001 \<le> x * x" by simp
  with sumSquares_member [OF assms(1)] have "0.0001 \<le> sumSquares chunk" by simp
  then have "(0.000001::real)\<^sup>2 < sumSquares chunk / real (length chunk)"
    using assms(3) by (simp add: power2_eq_square)
  then show ?thesis by (rule real_less_rsqrt)
qed

text \<open>
  Claim C4. A sliced chunk whose samples are all zero is not sent; a sliced chunk with a
  sample of magnitude at least 0.01 is sent, encoded by \<^verbatim>\<open>createBlob\<close> (its root mean
  square exceeds the threshold 0.000001).
\<close>

theorem silence_gate:
  assumes "\<not> stopRef h" and "downsampleTo16k num inputData sampleRate = Inr d"
    and "BUFFER_THRESHOLD \<le> length (audioBufferRef h @ d)"
  shows "((\<forall>x \<in> set (take BUFFER_THRESHOLD (audioBufferRef h @ d)). x = 0) \<longrightarrow>
            snd (onaudioprocess num h inputData sampleRate) = None)
       \<and> ((\<exists>x \<in> set (take BUFFER_THRESHOLD (audioBufferRef h @ d)). 0.01 \<le> \<bar>x\<bar>) \<longrightarrow>
            snd (onaudioprocess num h inputData sampleRate)
              = Some (createBlob (take BUFFER_THRESHOLD (audioBufferRef h @ d))))"
proof -
  let ?chunk = "take BUFFER_THRESHOLD (audioBufferRef h @ d)"
  have len: "length ?chunk = 4096"
    using assms(3) by (simp add: BUFFER_THRESHOLD_def)
  have out: "snd (onaudioprocess num h inputData sampleRate) =
               (if 0.000001 < sqrt (sumSquares ?chunk / real (length ?chunk))
                then Some (createBlob ?chunk) else None)"
    using assms by (simp add: onaudioprocess_def Let_def)
  have silent: "snd (onaudioprocess num h inputData sampleRate) = None"
    if "\<forall>x \<in> set ?chunk. x = 0"
    using sumSquares_zero [OF that] by (simp add: out)
  have loud: "snd (onaudioprocess num h inputData sampleRate) = Some (createBlob ?chunk)"
    if "\<exists>x \<in> set ?chunk. 0.01 \<le> \<bar>x\<bar>"
  proof -
    from that obtain x where "x \<in> set ?chunk" "0.01 \<le> \<bar>x\<bar>" by blast
    from loud_chunk_rms [OF this len] show ?thesis by (simp only: out if_True)
  qed
  show ?thesis using silent loud by blast
qed

theorem silence_gate_witness:
  "snd (onaudioprocess double_num initial_hook (replicate 4096 0) 16000) = None
   \<and> snd (onaudioprocess double_num initial_hook (replicate 4096 (1 / 100)) 16000)
       = Some (createBlob (replicate 4096 (1 / 100)))"
proof -
  have ns: "\<not> stopRef initial_hook" by (simp add: initial_hook_def)
  have ds: "downsampleTo16k double_num x 16000 = Inr x" for x by (simp add: downsampleTo16k_def)
  have ge: "BUFFER_THRESHOLD \<le> length (audioBufferRef initial_hook @ replicate 4096 (c::real))" for c
    by (simp add: BUFFER_THRESHOLD_def)
  have tk: "take BUFFER_THRESHOLD (audioBufferRef initial_hook @ replicate 4096 c) = replicate 4096 c"
    for c :: real
    by (simp add: BUFFER_THRESHOLD_def initial_hook_def)
  have z: "\<forall>x \<in> set (replicate 4096 (0::real)). x = 0" by simp
  have l: "\<exists>x \<in> set (replicate 4096 (1 / 100 :: real)). 0.01 \<le> \<bar>x\<bar>"
    by (rule bexI [of _ "1 / 100"]) simp_all
  from silence_gate [OF ns ds ge, of 0, unfolded tk]
    silence_gate [OF ns ds ge, of "1 / 100", unfolded tk] z l
  show ?thesis by blast
qed

section \<open>PCM round trip\<close>

lemma int16_bytes_joined:
  "ucast (ucast w :: 8 word) OR push_bit 8 (ucast (ucast (drop_bit 8 w) :: 8 word)) = w"
  for w :: "16 word"
  by (rule bit_word_eqI) (auto simp add: bit_simps)

lemma int16_of_buffer_bytes: "int16_of_bytes (buffer_bytes int16) = int16"
  by (induction int16) (simp_all add: buffer_bytes_def int16_bytes_def int16_bytes_joined)

lemma length_buffer_bytes: "length (buffer_bytes int16) = 2 * length int16"
  by (induction int16) (simp_all add: buffer_bytes_def int16_bytes_def)

lemma decodeAudioData_floatToPCM16:
  assumes "data \<noteq> []"
  shows "decodeAudioData (floatToPCM16 data) sampleRate 1 =
           Some \<lparr>ab_sampleRate = sampleRate,
                 ab_channels = [map (\<lambda>x. real_of_int (sint (createBlob_sample x)) / 32768) data]\<rparr>"
proof -
  let ?pcm = "map createBlob_sample data"
  have even: "length (floatToPCM16 data) mod 2 = 0"
    by (simp add: floatToPCM16_def length_buffer_bytes)
  have pcm: "int16_of_bytes (floatToPCM16 data) = ?pcm"
    by (simp add: floatToPCM16_def int16_of_buffer_bytes)
  have "map (\<lambda>i. real_of_int (sint (?pcm ! i)) / 32768) [0..<length ?pcm]
          = map (\<lambda>w. real_of_int (sint w) / 32768) ?pcm"
    by (rule nth_equalityI) simp_all
  then have "map (\<lambda>i. real_of_int (sint (?pcm ! i)) / 32768) [0..<length data]
          = map (\<lambda>x. real_of_int (sint (createBlob_sample x)) / 32768) data"
    by (simp add: comp_def)
  then show ?thesis
    using assms even by (simp add: decodeAudioData_def pcm Let_def del: map_eq_conv)
qed

lemma sint_toInt16:
  "- 32768 \<le> js_trunc y \<Longrightarrow> js_trunc y \<le> 32767 \<Longrightarrow> sint (toInt16 y) = js_trunc y"
  by (simp add: toInt16_def sint_sbintrunc' signed_take_bit_int_eq_self)

lemma sample_negative:
  assumes "- 1 \<le> x" and "x < 0"
  shows "sint (createBlob_sample x) = \<lceil>x * 32768\<rceil>"
    and "0 \<le> real_of_int \<lceil>x * 32768\<rceil> / 32768 - x"
    and "real_of_int \<lceil>x * 32768\<rceil> / 32768 - x < 1 / 32768"
proof -
  let ?y = "x * 32768"
  have lo: "- 32768 \<le> \<lceil>?y\<rceil>"
  proof -
    have "- 32768 \<le> ?y" using assms(1) by simp
    then have "real_of_int (- 32768) \<le> ?y" by simp
    then have "- 32768 \<le> \<lceil>?y\<rceil>" by (metis ceiling_mono ceiling_of_int)
    then show ?thesis by simp
  qed
  have hi: "\<lceil>?y\<rceil> \<le> 0"
    using assms(2) by (simp add: ceiling_le_iff)
  have tr: "js_trunc ?y = \<lceil>?y\<rceil>"
    using assms(2) by (simp add: js_trunc_def)
  have cb: "createBlob_sample x = toInt16 ?y"
    using assms by (simp add: createBlob_sample_def)
  show "sint (createBlob_sample x) = \<lceil>?y\<rceil>"
    using sint_toInt16 [of ?y] lo hi by (simp only: cb tr)
  define k where "k = real_of_int \<lceil>?y\<rceil>"
  have a: "?y \<le> k" unfolding k_def by (rule le_of_int_ceiling)
  have b: "k < ?y + 1" unfolding k_def by linarith
  show "0 \<le> real_of_int \<lceil>?y\<rceil> / 32768 - x"
    unfolding k_def [symmetric] using a by linarith
  show "real_of_int \<lceil>?y\<rceil> / 32768 - x < 1 / 32768"
    unfolding k_def [symmetric] using b by linarith
qed

lemma sample_nonnegative:
  assumes "0 \<le> x" and "x \<le> 1"
  shows "sint (createBlob_sample x) = \<lfloor>x * 32767\<rfloor>"
    and "0 \<le> x - real_of_int \<lfloor>x * 32767\<rfloor> / 32768"
    and "x - real_of_int \<lfloor>x * 32767\<rfloor> / 32768 < 2 / 32768"
proof -
  let ?y = "x * 32767"
  have lo: "0 \<le> \<lfloor>?y\<rfloor>" using assms(1) by simp
  have hi: "\<lfloor>?y\<rfloor> \<le> 32767"
  proof -
    have "?y \<le> 32767" using assms(2) by simp
    then show ?thesis by (simp add: floor_le_iff)
  qed
  have tr: "js_trunc ?y = \<lfloor>?y\<rfloor>"
    using assms(1) by (simp add: js_trunc_def)
  have cb: "createBlob_sample x = toInt16 ?y"
    using assms by (simp add: createBlob_sample_def)
  show "sint (createBlob_sample x) = \<lfloor>?y\<rfloor>"
    using sint_toInt16 [of ?y] lo hi by (simp only: cb tr)
  define k where "k = real_of_int \<lfloor>?y\<rfloor>"
  have a: "k \<le> ?y" unfolding k_def by (rule of_int_floor_le)
  have b: "?y < k + 1" unfolding k_def by linarith
  show "0 \<le> x - real_of_int \<lfloor>?y\<rfloor> / 32768"
    unfolding k_def [symmetric] using a assms(1) by linarith
  show "x - real_of_int \<lfloor>?y\<rfloor> / 32768 < 2 / 32768"
    unfolding k_def [symmetric] using b assms(2) by linarith
qed

lemma sample_round_trip:
  assumes "- 1 \<le> x" and "x \<le> 1"
  shows "\<bar>real_of_int (sint (createBlob_sample x)) / 32768 - x\<bar> < 2 / 32768"
    and "x \<le> 0 \<Longrightarrow> \<bar>real_of_int (sint (createBlob_sample x)) / 32768 - x\<bar> < 1 / 32768"
proof -
  show "\<bar>real_of_int (sint (createBlob_sample x)) / 32768 - x\<bar> < 2 / 32768"
  proof (cases "x < 0")
    case True
    from sample_negative [OF assms(1) True] show ?thesis by simp
  next
    case False
    then have "0 \<le> x" by simp
    from sample_nonnegative [OF this assms(2)] show ?thesis by simp
  qed
  show "\<bar>real_of_int (sint (createBlob_sample x)) / 32768 - x\<bar> < 1 / 32768" if "x \<le> 0"
  proof (cases "x < 0")
    case True
    from sample_negative [OF assms(1) True] show ?thesis by simp
  next
    case False
    with that have "x = 0" by simp
    then show ?thesis by (simp add: createBlob_sample_def toInt16_def js_trunc_def)
  qed
qed

text \<open>
  Claim C7, amended. For every non-empty sample array with all values in \<open>[-1, 1]\<close>,
  decoding the PCM bytes of \<^verbatim>\<open>createBlob\<close> as one channel yields an array of the same length
  that differs from the input by less than two quantization steps, \<open>2 / 32768\<close>, at every
  index, and by less than one step, \<open>1 / 32768\<close>, where the input sample is not positive.
  (Non-negative samples are scaled by 32767 and decoded by 32768.)
\<close>

theorem pcm16_round_trip_two_steps:
  assumes "data \<noteq> []" and "\<forall>x \<in> set data. - 1 \<le> x \<and> x \<le> 1"
  shows "\<exists>ys. decodeAudioData (floatToPCM16 data) sampleRate 1
                = Some \<lparr>ab_sampleRate = sampleRate, ab_channels = [ys]\<rparr>
           \<and> length ys = length data
           \<and> (\<forall>i < length data.
                 \<bar>ys ! i - data ! i\<bar> < 2 / 32768
               \<and> (data ! i \<le> 0 \<longrightarrow> \<bar>ys ! i - data ! i\<bar> < 1 / 32768))"
proof -
  let ?ys = "map (\<lambda>x. real_of_int (sint (createBlob_sample x)) / 32768) data"
  have "\<bar>?ys ! i - data ! i\<bar> < 2 / 32768
        \<and> (data ! i \<le> 0 \<longrightarrow> \<bar>?ys ! i - data ! i\<bar> < 1 / 32768)"
    if "i < length data" for i
  proof -
    from that assms(2) have r: "- 1 \<le> data ! i" "data ! i \<le> 1" by auto
    from sample_round_trip [OF r] that show ?thesis by simp
  qed
  then show ?thesis
    using decodeAudioData_floatToPCM16 [OF assms(1), of sampleRate]
    by (intro exI [of _ ?ys]) simp
qed

theorem pcm16_round_trip_two_steps_witness:
  "\<exists>ys. decodeAudioData (floatToPCM16 [1 / 2, - 1]) 24000 1
           = Some \<lparr>ab_sampleRate = 24000, ab_channels = [ys]\<rparr>
      \<and> length ys = 2 \<and> \<bar>ys ! 0 - 1 / 2\<bar> < 2 / 32768 \<and> \<bar>ys ! 1 - (- 1)\<bar> < 1 / 32768"
proof -
  have a: "[1 / 2, - 1 :: real] \<noteq> []" by simp
  have b: "\<forall>x \<in> set [1 / 2, - 1 :: real]. - 1 \<le> x \<and> x \<le> 1" by simp
  from pcm16_round_trip_two_steps [OF a b, of 24000]
  obtain ys where ys: "decodeAudioData (floatToPCM16 [1 / 2, - 1]) 24000 1
           = Some \<lparr>ab_sampleRate = 24000, ab_channels = [ys]\<rparr>"
    "length ys = length [1 / 2, - 1 :: real]"
    "\<forall>i < length [1 / 2, - 1 :: real].
         \<bar>ys ! i - [1 / 2, - 1] ! i\<bar> < 2 / 32768
       \<and> ([1 / 2, - 1 :: real] ! i \<le> 0 \<longrightarrow> \<bar>ys ! i - [1 / 2, - 1] ! i\<bar> < 1 / 32768)"
    by blast
  from ys(3) have "\<bar>ys ! 0 - 1 / 2\<bar> < 2 / 32768" "\<bar>ys ! 1 - (- 1)\<bar> < 1 / 32768"
    by (simp_all add: All_less_Suc2 numeral_2_eq_2)
  with ys(1,2) show ?thesis by auto
qed

text \<open>
  Claim C7, as stated, fails: the sample \<open>65535 / 65536\<close> is encoded as 32766 and decoded
  as \<open>32766 / 32768\<close>, one and a half quantization steps below it.
\<close>

theorem pcm16_round_trip_counterexample:
  "decodeAudioData (floatToPCM16 [65535 / 65536]) 24000 1
     = Some \<lparr>ab_sampleRate = 24000, ab_channels = [[32766 / 32768]]\<rparr>
   \<and> \<not> \<bar>32766 / 32768 - 65535 / 65536\<bar> \<le> (1 / 32768 :: real)"
proof -
  have "(0::real) \<le> 65535 / 65536" "(65535 / 65536 :: real) \<le> 1" by simp_all
  from sample_nonnegative(1) [OF this]
  have "sint (createBlob_sample (65535 / 65536)) = 32766" by simp
  then have "real_of_int (sint (createBlob_sample (65535 / 65536))) = 32766" by simp
  then show ?thesis
    using decodeAudioData_floatToPCM16 [of "[65535 / 65536]" 24000] by simp
qed

section \<open>Base64 round trip\<close>

lemma find_index_from_nth:
  "distinct xs \<Longrightarrow> i < length xs \<Longrightarrow> find_index_from n (xs ! i) xs = Some (n + i)"
proof (induction xs arbitrary: n i)
  case Nil
  then show ?case by simp
next
  case (Cons x xs)
  show ?case
  proof (cases i)
    case 0
    then show ?thesis by simp
  next
    case (Suc j)
    with Cons.prems have j: "j < length xs" and d: "distinct xs" and nx: "xs ! j \<noteq> x"
      by auto
    from Cons.IH [OF d j, of "Suc n"] nx Suc show ?thesis by simp
  qed
qed

lemma distinct_b64_alphabet: "distinct b64_alphabet"
  by (simp add: b64_alphabet_def)

lemma length_b64_alphabet: "length b64_alphabet = 64"
  by (simp add: b64_alphabet_def)

lemma b64_index_char: "i < 64 \<Longrightarrow> b64_index (b64_char i) = Some i"
  using find_index_from_nth [OF distinct_b64_alphabet, of i 0]
  by (simp add: b64_index_def b64_char_def length_b64_alphabet)

lemma b64_char_in_alphabet: "i < 64 \<Longrightarrow> b64_char i \<in> set b64_alphabet"
  by (simp add: b64_char_def length_b64_alphabet)

lemma b64_char_not_pad: "i < 64 \<Longrightarrow> b64_char i \<noteq> CHR ''=''"
proof -
  have "CHR ''='' \<notin> set b64_alphabet" by (simp add: b64_alphabet_def)
  then show "i < 64 \<Longrightarrow> b64_char i \<noteq> CHR ''=''"
    using b64_char_in_alphabet [of i] by auto
qed

lemma b64_char_not_whitespace: "i < 64 \<Longrightarrow> \<not> is_ascii_whitespace (b64_char i)"
proof -
  have "\<forall>c \<in> set b64_alphabet. \<not> is_ascii_whitespace c"
    by (simp add: b64_alphabet_def is_ascii_whitespace_def)
  then show "i < 64 \<Longrightarrow> \<not> is_ascii_whitespace (b64_char i)"
    using b64_char_in_alphabet [of i] by auto
qed

lemma pad_not_whitespace: "\<not> is_ascii_whitespace (CHR ''='')"
  by (simp add: is_ascii_whitespace_def)

lemma join_div: "y < n \<Longrightarrow> (x * n + y) div n = x" for x y n :: nat
  by simp

lemma join_mod: "y < n \<Longrightarrow> (x * n + y) mod n = y" for x y n :: nat
  by simp

lemma sextet_bounds:
  fixes a b :: nat
  shows "a < 256 \<Longrightarrow> a div 4 < 64"
    and "b < 256 \<Longrightarrow> (a mod 4) * 16 + b div 16 < 64"
    and "b < 256 \<Longrightarrow> (a mod 16) * 4 + b div 64 < 64"
    and "a mod 64 < 64" and "(a mod 4) * 16 < 64" and "(a mod 16) * 4 < 64"
proof -
  define a4 where "a4 = a mod 4"
  define a16 where "a16 = a mod 16"
  define b16 where "b16 = b div 16"
  define b64 where "b64 = b div 64"
  have 1: "a4 < 4" "a16 < 16" by (simp_all add: a4_def a16_def)
  have 2: "b16 < 16" "b64 < 4" if "b < 256"
    using that by (simp_all add: b16_def b64_def less_mult_imp_div_less)
  show "a div 4 < 64" if "a < 256" using that by (simp add: less_mult_imp_div_less)
  show "a mod 64 < 64" by simp
  from 1 have "a4 * 16 < 64" "a16 * 4 < 64"
    by linarith+
  then show "(a mod 4) * 16 < 64" "(a mod 16) * 4 < 64"
    by (simp_all only: a4_def a16_def)
  have "a4 * 16 + b16 < 64" "a16 * 4 + b64 < 64" if "b < 256"
    using 1 2 [OF that] by linarith+
  then show "b < 256 \<Longrightarrow> (a mod 4) * 16 + b div 16 < 64"
    "b < 256 \<Longrightarrow> (a mod 16) * 4 + b div 64 < 64"
    by (simp_all only: a4_def a16_def b16_def b64_def)
qed

lemma octets_rejoined:
  fixes a b c :: nat
  assumes "b < 256" and "c < 256"
  shows "(a div 4) * 4 + ((a mod 4) * 16 + b div 16) div 16 = a"
    and "(((a mod 4) * 16 + b div 16) mod 16) * 16 + ((b mod 16) * 4 + c div 64) div 4 = b"
    and "(((b mod 16) * 4 + c div 64) mod 4) * 64 + c mod 64 = c"
    and "(a div 4) * 4 + ((a mod 4) * 16) div 16 = a"
    and "(((a mod 4) * 16 + b div 16) mod 16) * 16 + ((b mod 16) * 4) div 4 = b"
proof -
  have b16: "b div 16 < 16" using assms(1) by (simp add: less_mult_imp_div_less)
  have c64: "c div 64 < 4" using assms(2) by (simp add: less_mult_imp_div_less)
  show "(a div 4) * 4 + ((a mod 4) * 16 + b div 16) div 16 = a"
    by (simp only: join_div [OF b16] div_mult_mod_eq)
  show "(((a mod 4) * 16 + b div 16) mod 16) * 16 + ((b mod 16) * 4 + c div 64) div 4 = b"
    by (simp only: join_mod [OF b16] join_div [OF c64] div_mult_mod_eq)
  show "(((b mod 16) * 4 + c div 64) mod 4) * 64 + c mod 64 = c"
    by (simp only: join_mod [OF c64] div_mult_mod_eq)
  show "(a div 4) * 4 + ((a mod 4) * 16) div 16 = a"
    by simp
  show "(((a mod 4) * 16 + b div 16) mod 16) * 16 + ((b mod 16) * 4) div 4 = b"
    using b16 by simp
qed


lemma strip_padding_append:
  "2 \<le> length t \<Longrightarrow> strip_padding (p @ t) = p @ strip_padding t"
proof -
  assume len: "2 \<le> length t"
  then have t: "t \<noteq> []" by auto
  from len have bt: "butlast t \<noteq> []"
    by (cases t rule: rev_cases) auto
  show ?thesis
    using t bt by (simp add: strip_padding_def Let_def butlast_append last_append)
qed

lemma btoa_groups_length: "length (btoa_groups xs) mod 4 = 0"
  by (induction xs rule: btoa_groups.induct) simp_all

lemma btoa_groups_long: "xs \<noteq> [] \<Longrightarrow> 2 \<le> length (btoa_groups xs)"
  by (induction xs rule: btoa_groups.induct) simp_all

lemma btoa_groups_no_whitespace:
  "\<forall>x \<in> set xs. x < 256 \<Longrightarrow> filter (\<lambda>c. \<not> is_ascii_whitespace c) (btoa_groups xs) = btoa_groups xs"
  by (induction xs rule: btoa_groups.induct)
    (simp_all add: b64_char_not_whitespace sextet_bounds pad_not_whitespace)

lemma strip_padding_group:
  assumes "s < 64"
  shows "strip_padding [p, q, r, b64_char s] = [p, q, r, b64_char s]"
    and "r = b64_char s \<Longrightarrow> strip_padding [p, q, r, CHR ''=''] = [p, q, r]"
    and "q = b64_char s \<Longrightarrow> strip_padding [p, q, CHR ''='', CHR ''=''] = [p, q]"
  using b64_char_not_pad [OF assms] by (simp_all add: strip_padding_def)

lemma atob_of_btoa_groups:
  assumes "\<forall>x \<in> set xs. x < 256"
  shows "length (strip_padding (btoa_groups xs)) mod 4 \<noteq> 1
       \<and> \<not> list_ex (\<lambda>c. b64_index c = None) (strip_padding (btoa_groups xs))
       \<and> atob_groups (map (\<lambda>c. the (b64_index c)) (strip_padding (btoa_groups xs))) = xs"
  using assms
proof (induction xs rule: btoa_groups.induct)
  case (1 a b c rest)
  then have bd: "a < 256" "b < 256" "c < 256" and rest: "\<forall>x \<in> set rest. x < 256"
    by simp_all
  let ?g = "[b64_char (a div 4), b64_char ((a mod 4) * 16 + b div 16),
             b64_char ((b mod 16) * 4 + c div 64), b64_char (c mod 64)]"
  have ok: "\<not> list_ex (\<lambda>c. b64_index c = None) ?g"
    using bd by (simp add: b64_index_char sextet_bounds)
  have sp: "strip_padding (?g @ btoa_groups rest) = ?g @ strip_padding (btoa_groups rest)"
  proof (cases "rest = []")
    case True
    have "c mod 64 < 64" by simp
    from strip_padding_group(1) [OF this] True show ?thesis
      by (simp add: strip_padding_def)
  next
    case False
    from strip_padding_append [OF btoa_groups_long [OF False]] show ?thesis .
  qed
  from "1.IH" [OF rest] have ih:
    "length (strip_padding (btoa_groups rest)) mod 4 \<noteq> 1"
    "\<not> list_ex (\<lambda>c. b64_index c = None) (strip_padding (btoa_groups rest))"
    "atob_groups (map (\<lambda>c. the (b64_index c)) (strip_padding (btoa_groups rest))) = rest"
    by simp_all
  have "btoa_groups (a # b # c # rest) = ?g @ btoa_groups rest" by simp
  then have eq: "strip_padding (btoa_groups (a # b # c # rest)) = ?g @ strip_padding (btoa_groups rest)"
    using sp by simp
  have l: "length (?g @ strip_padding (btoa_groups rest)) mod 4 \<noteq> 1"
    using ih(1) by simp
  have e: "\<not> list_ex (\<lambda>c. b64_index c = None) (?g @ strip_padding (btoa_groups rest))"
    using ok ih(2) by simp
  have d: "atob_groups (map (\<lambda>c. the (b64_index c)) (?g @ strip_padding (btoa_groups rest)))
             = a # b # c # rest"
    using ih(3) bd by (simp add: b64_index_char sextet_bounds octets_rejoined [OF bd(2,3)])
  show ?case using l e d by (simp only: eq) simp
next
  case (2 a b)
  then have bd: "a < 256" "b < 256" by simp_all
  have s: "(b mod 16) * 4 < 64" by (rule sextet_bounds(6))
  show ?case
    using bd by (simp add: strip_padding_group(2) [OF s refl] b64_index_char sextet_bounds
        octets_rejoined [OF bd(2) bd(2)])
next
  case (3 a)
  then have bd: "a < 256" by simp
  have s: "(a mod 4) * 16 < 64" by (rule sextet_bounds(5))
  show ?case
    using bd by (simp add: strip_padding_group(3) [OF s refl] b64_index_char sextet_bounds
        octets_rejoined [OF bd bd])
next
  case 4
  show ?case by (simp add: strip_padding_def)
qed

lemma atob_btoa: "atob (btoa s) = Some s"
proof -
  let ?xs = "map of_char s :: nat list"
  have small: "\<forall>x \<in> set ?xs. x < 256" by auto
  note r = atob_of_btoa_groups [OF small]
  have "map char_of ?xs = s" by (simp add: comp_def)
  then show ?thesis
    using r by (simp add: atob_def btoa_def btoa_groups_no_whitespace [OF small]
        btoa_groups_length Let_def)
qed

text \<open>
  Claim C9. For every byte sequence, decoding its base64 encoding returns it:
  \<^verbatim>\<open>decode(encode(b))\<close> does not throw and equals \<open>b\<close>.
\<close>

theorem base64_round_trip: "decode (encode bytes) = Some bytes"
proof -
  have "word_of_nat (of_char (char_of (unat b) :: char)) = b" for b :: "8 word"
  proof -
    have "unat b < 256" using unsigned_less [of b] by simp
    then show ?thesis by simp
  qed
  then have "map (\<lambda>c. word_of_nat (of_char c)) (map (\<lambda>b. char_of (unat b)) bytes) = bytes"
    by (induction bytes) simp_all
  then show ?thesis by (simp add: decode_def encode_def atob_btoa)
qed

section \<open>URL cleaning of \<^verbatim>\<open>openUrl\<close>\<close>

lemma startsWith_includes: "startsWith s p \<Longrightarrow> js_includes s p"
proof (cases s)
  case Nil
  assume "startsWith s p"
  with Nil have "p = []" by (cases p) simp_all
  with Nil show ?thesis by simp
next
  case (Cons c cs)
  assume "startsWith s p"
  with Cons show ?thesis by simp
qed

lemma includes_drop: "js_includes (drop n s) sub \<Longrightarrow> js_includes s sub"
proof (induction s arbitrary: n)
  case Nil
  then show ?case by simp
next
  case (Cons c cs)
  show ?case
  proof (cases n)
    case 0
    with Cons.prems show ?thesis by simp
  next
    case (Suc m)
    with Cons.prems have "js_includes (drop m cs) sub" by simp
    then have "js_includes cs sub" by (rule Cons.IH)
    then show ?thesis by simp
  qed
qed

lemma startsWith_append: "startsWith s (a @ b) \<Longrightarrow> startsWith (drop (length a) s) b"
proof (induction a arbitrary: s)
  case Nil
  then show ?case by simp
next
  case (Cons x xs)
  then show ?case by (cases s) simp_all
qed

lemma scheme_prefix_includes:
  assumes "startsWith s ''http://'' \<or> startsWith s ''https://''"
  shows "js_includes s ''://''"
  using assms
proof
  assume "startsWith s ''http://''"
  then have "startsWith s (''http'' @ ''://'')" by simp
  then have "startsWith (drop (length ''http'') s) ''://''" by (rule startsWith_append)
  then have "js_includes (drop (length ''http'') s) ''://''" by (rule startsWith_includes)
  then show ?thesis by (rule includes_drop)
next
  assume "startsWith s ''https://''"
  then have "startsWith s (''https'' @ ''://'')" by simp
  then have "startsWith (drop (length ''https'') s) ''://''" by (rule startsWith_append)
  then have "js_includes (drop (length ''https'') s) ''://''" by (rule startsWith_includes)
  then show ?thesis by (rule includes_drop)
qed

lemma schemedUrl_REDDIT: "schemedUrl reference_browser ''REDDIT'' = ''https://reddit''"
  by (simp add: schemedUrl_def reference_browser_def ref_env_def ref_toLowerCase_def
      ref_stripSpaces_def is_ascii_def lower_char_def upper_letters_def lower_letters_def
      is_space_def)

lemma schemedUrl_facebook:
  "schemedUrl reference_browser ''face book . com'' = ''https://facebook.com''"
  by (simp add: schemedUrl_def reference_browser_def ref_env_def ref_toLowerCase_def
      ref_stripSpaces_def is_ascii_def lower_char_def upper_letters_def lower_letters_def
      is_space_def)

lemma ref_url_new_reddit:
  "url_new reference_browser ''https://reddit''
     = Some \<lparr>u_scheme = ''https'', u_host = ''reddit''\<rparr>"
  by (simp add: reference_browser_def ref_env_def ref_url_new_def valid_host_def lower_letters_def)

lemma ref_url_new_facebook:
  "url_new reference_browser ''https://facebook.com''
     = Some \<lparr>u_scheme = ''https'', u_host = ''facebook.com''\<rparr>"
  by (simp add: reference_browser_def ref_env_def ref_url_new_def valid_host_def lower_letters_def)

lemma cleanUrl_REDDIT: "cleanUrl reference_browser ''REDDIT'' = ''https://reddit.com/''"
  by (simp add: cleanUrl_def schemedUrl_REDDIT ref_url_new_reddit)
    (simp add: reference_browser_def ref_env_def ref_url_set_hostname_def ref_url_toString_def
      valid_host_def lower_letters_def)

lemma cleanUrl_facebook: "cleanUrl reference_browser ''face book . com'' = ''https://facebook.com''"
  by (simp add: cleanUrl_def schemedUrl_facebook ref_url_new_facebook)
    (simp add: reference_browser_def ref_env_def)

lemma tool_openUrl_opens:
  "windowOpens (snd (tool_openUrl env (Some [(''url'', JStr url0)]) u))
     = windowOpens u @ [cleanUrl env url0]"
  by (simp add: tool_openUrl_def args_prop_def call_window_open_def Let_def addLog_def
      split: open_outcome.splits)

text \<open>
  Claim C6, as stated, fails in its first example: for \<^verbatim>\<open>REDDIT\<close> the host name
  \<^verbatim>\<open>reddit\<close> has no dot, so the URL object gets the host name \<^verbatim>\<open>reddit.com\<close> and is
  serialized, and the serialization of a URL with an empty path ends in a slash: the string
  handed to \<^verbatim>\<open>window.open\<close> is \<^verbatim>\<open>https://reddit.com/\<close>, not \<^verbatim>\<open>https://reddit.com\<close>.
\<close>

theorem openUrl_reddit_counterexample:
  "windowOpens (snd (tool_openUrl reference_browser (Some [(''url'', JStr ''REDDIT'')]) initial_ui))
     = [''https://reddit.com/'']
   \<and> \<not> windowOpens (snd (tool_openUrl reference_browser (Some [(''url'', JStr ''REDDIT'')]) initial_ui))
         = [''https://reddit.com'']"
  by (simp add: tool_openUrl_opens cleanUrl_REDDIT initial_ui_def)

text \<open>
  Claim C6, amended. \<^verbatim>\<open>openUrl\<close> calls \<^verbatim>\<open>window.open\<close> once, with the normalized URL. The
  argument is lower-cased and its white space is removed, both by the platform's own
  functions; \<^verbatim>\<open>https://\<close> is prefixed when no scheme is present (the string contains no
  \<^verbatim>\<open>://\<close>), and more precisely unless the string starts with \<^verbatim>\<open>http://\<close> or \<^verbatim>\<open>https://\<close>. When
  the resulting host name has no dot, \<^verbatim>\<open>.com\<close> is appended to it and the URL object's
  serialization is opened; when it has a dot the string is opened as it is. (When the
  string does not parse as a URL, \<^verbatim>\<open>.com\<close> is appended to the string if it contains no
  dot.) In the reference browser \<^verbatim>\<open>openUrl("REDDIT")\<close> opens \<^verbatim>\<open>https://reddit.com/\<close> and
  \<^verbatim>\<open>openUrl("face book . com")\<close> opens \<^verbatim>\<open>https://facebook.com\<close>.
\<close>

theorem openUrl_normalization:
  "windowOpens (snd (tool_openUrl env (Some [(''url'', JStr url0)]) u))
     = windowOpens u @ [cleanUrl env url0]
   \<and> schemedUrl env url0 =
       (if startsWith (stripSpaces env (toLowerCase env url0)) ''http://''
           \<or> startsWith (stripSpaces env (toLowerCase env url0)) ''https://''
        then stripSpaces env (toLowerCase env url0)
        else ''https://'' @ stripSpaces env (toLowerCase env url0))
   \<and> (\<not> js_includes (stripSpaces env (toLowerCase env url0)) ''://'' \<longrightarrow>
         schemedUrl env url0 = ''https://'' @ stripSpaces env (toLowerCase env url0))
   \<and> (\<forall>urlObj. url_new env (schemedUrl env url0) = Some urlObj \<longrightarrow>
         cleanUrl env url0 =
           (if js_includes (url_hostname env urlObj) ''.'' then schemedUrl env url0
            else url_toString env
                   (url_set_hostname env urlObj (url_hostname env urlObj @ ''.com''))))
   \<and> (url_new env (schemedUrl env url0) = None \<longrightarrow>
         cleanUrl env url0 =
           (if js_includes (schemedUrl env url0) ''.'' then schemedUrl env url0
            else schemedUrl env url0 @ ''.com''))
   \<and> windowOpens (snd (tool_openUrl reference_browser (Some [(''url'', JStr ''REDDIT'')]) initial_ui))
       = [''https://reddit.com/'']
   \<and> windowOpens
        (snd (tool_openUrl reference_browser (Some [(''url'', JStr ''face book . com'')]) initial_ui))
       = [''https://facebook.com'']"
proof -
  let ?s = "stripSpaces env (toLowerCase env url0)"
  have a: "schemedUrl env url0 =
       (if startsWith ?s ''http://'' \<or> startsWith ?s ''https://''
        then ?s else ''https://'' @ ?s)"
    by (simp add: schemedUrl_def Let_def)
  have a': "schemedUrl env url0 = ''https://'' @ ?s" if "\<not> js_includes ?s ''://''"
  proof -
    from that scheme_prefix_includes [of ?s]
    have "\<not> (startsWith ?s ''http://'' \<or> startsWith ?s ''https://'')" by blast
    then show ?thesis by (simp only: a if_False)
  qed
  have b: "cleanUrl env url0 =
           (if js_includes (url_hostname env urlObj) ''.'' then schemedUrl env url0
            else url_toString env
                   (url_set_hostname env urlObj (url_hostname env urlObj @ ''.com'')))"
    if "url_new env (schemedUrl env url0) = Some urlObj" for urlObj
    using that by (simp add: cleanUrl_def Let_def)
  have c: "cleanUrl env url0 =
           (if js_includes (schemedUrl env url0) ''.'' then schemedUrl env url0
            else schemedUrl env url0 @ ''.com'')"
    if "url_new env (schemedUrl env url0) = None"
    using that by (simp add: cleanUrl_def Let_def)
  have d: "windowOpens (snd (tool_openUrl reference_browser (Some [(''url'', JStr ''REDDIT'')]) initial_ui))
       = [''https://reddit.com/'']"
    by (simp add: tool_openUrl_opens cleanUrl_REDDIT initial_ui_def)
  have e: "windowOpens
        (snd (tool_openUrl reference_browser (Some [(''url'', JStr ''face book . com'')]) initial_ui))
       = [''https://facebook.com'']"
    by (simp add: tool_openUrl_opens cleanUrl_facebook initial_ui_def)
  show ?thesis
    using a a' b c d e tool_openUrl_opens [of env url0 u]
    by (intro conjI allI impI) blast+
qed

theorem openUrl_normalization_witness:
  "schemedUrl reference_browser ''face book . com'' = ''https://'' @ ''facebook.com''
   \<and> url_new reference_browser (schemedUrl reference_browser ''face book . com'')
       = Some \<lparr>u_scheme = ''https'', u_host = ''facebook.com''\<rparr>
   \<and> cleanUrl reference_browser ''face book . com'' = ''https://facebook.com''"
proof -
  have l: "stripSpaces reference_browser (toLowerCase reference_browser ''face book . com'')
             = ''facebook.com''"
    by (simp add: reference_browser_def ref_env_def ref_toLowerCase_def
        ref_stripSpaces_def is_ascii_def lower_char_def upper_letters_def lower_letters_def
        is_space_def)
  have n: "\<not> js_includes ''facebook.com'' ''://''" by simp
  note t = openUrl_normalization [of reference_browser "''face book . com''" initial_ui]
  from t have t3: "\<not> js_includes
         (stripSpaces reference_browser (toLowerCase reference_browser ''face book . com'')) ''://''
       \<longrightarrow> schemedUrl reference_browser ''face book . com''
          = ''https://'' @ stripSpaces reference_browser
                             (toLowerCase reference_browser ''face book . com'')"
    and t4: "\<forall>urlObj. url_new reference_browser (schemedUrl reference_browser ''face book . com'')
                       = Some urlObj \<longrightarrow>
         cleanUrl reference_browser ''face book . com'' =
           (if js_includes (url_hostname reference_browser urlObj) ''.''
            then schemedUrl reference_browser ''face book . com''
            else url_toString reference_browser
                   (url_set_hostname reference_browser urlObj
                      (url_hostname reference_browser urlObj @ ''.com'')))"
    by blast+
  from t3 n have s: "schemedUrl reference_browser ''face book . com'' = ''https://'' @ ''facebook.com''"
    unfolding l by blast
  have p: "url_new reference_browser (schemedUrl reference_browser ''face book . com'')
       = Some \<lparr>u_scheme = ''https'', u_host = ''facebook.com''\<rparr>"
    unfolding s
    by (simp add: reference_browser_def ref_env_def ref_url_new_def valid_host_def
        lower_letters_def)
  have h: "js_includes (url_hostname reference_browser
              \<lparr>u_scheme = ''https'', u_host = ''facebook.com''\<rparr>) ''.''"
    by (simp add: reference_browser_def ref_env_def)
  from t4 p h have "cleanUrl reference_browser ''face book . com''
                      = schemedUrl reference_browser ''face book . com''"
    by simp
  then show ?thesis using s p by simp
qed

end
